theory Spec2Isabelle
  imports Complex_Main "HOL-Library.Word" "HOL-Library.Log_Nat"
begin

unbundle bit_operations_syntax

section \<open>Data model\<close>

text \<open>
  The walkmesh module of the field viewer: the binary decoders \<open>parseWalkmesh\<close> and
  \<open>parseGateways\<close>, the bounding box \<open>calculateWalkmeshBounds\<close>, and the point
  location functions of the viewer (\<open>pointInTriangle\<close>, \<open>calculateZAtPoint\<close>,
  \<open>findTriangleAtPosition\<close>).

  Conventions of the embedding.
  \<^item> The input buffer is a TypeScript \<open>number[]\<close> that carries the bytes of a file, so
    it is a list of 8-bit words.
  \<^item> The bitwise operators \<open>|\<close> and \<open><<\<close> of JavaScript work on 32-bit two's
    complement integers and give one: their operands are \<open>32 word\<close>s and the result is
    read with \<open>sint\<close>.
  \<^item> Reading \<open>buffer[offset]\<close> outside the array gives \<open>undefined\<close>, and
    \<open>undefined\<close> as an operand of \<open>|\<close> or \<open><<\<close> is 0.
  \<^item> A \<open>number\<close> is an IEEE 754 double: a rational \<open>Num q\<close>, an infinity or
    \<open>NaN\<close>. The arithmetic of the point location functions rounds every result to
    the nearest double, ties to even (\<open>dbl\<close>), with gradual underflow and overflow to
    an infinity. The two zeros are one value: the program never divides by a zero and
    never looks at the sign of one.
  \<^item> The decoders produce integers. \<open>calculateWalkmeshBounds\<close> adds two of them and
    halves the sum, which a double does exactly, so its arithmetic is written without
    rounding.
  \<^item> The fields of a vertex are named \<open>vx\<close>, \<open>vy\<close>, \<open>vz\<close> (the source has
    \<open>x\<close>, \<open>y\<close>, \<open>z\<close>), the elevation of a query result is \<open>tz\<close>, and the
    local variables of \<open>calculateWalkmeshBounds\<close> carry a prime, since their names
    are those of the fields of the result.
\<close>

type_synonym byte = "8 word"

record WalkmeshVertex =
  vx :: rat
  vy :: rat
  vz :: rat

record WalkmeshTriangle =
  vertices :: "WalkmeshVertex \<times> WalkmeshVertex \<times> WalkmeshVertex"
  access :: "int \<times> int \<times> int"

record Walkmesh =
  triangleCount :: int
  triangles :: "WalkmeshTriangle list"

record Gateway =
  vertex1 :: WalkmeshVertex
  vertex2 :: WalkmeshVertex
  fieldId :: int

section \<open>Reading the buffer\<close>

definition byteAt :: "byte list \<Rightarrow> int \<Rightarrow> 32 word" where
  "byteAt buffer offset =
     (if 0 \<le> offset \<and> offset < int (length buffer) then ucast (buffer ! nat offset) else 0)"

definition readUInt16 :: "byte list \<Rightarrow> int \<Rightarrow> int" where
  "readUInt16 buffer offset =
     sint (byteAt buffer offset OR push_bit 8 (byteAt buffer (offset + 1)))"

definition readInt16 :: "byte list \<Rightarrow> int \<Rightarrow> int" where
  "readInt16 buffer offset =
     (let val = sint (byteAt buffer offset OR push_bit 8 (byteAt buffer (offset + 1)))
      in if val > 0x7FFF then val - 0x10000 else val)"

definition readUInt32 :: "byte list \<Rightarrow> int \<Rightarrow> int" where
  "readUInt32 buffer offset =
     sint (((byteAt buffer offset OR push_bit 8 (byteAt buffer (offset + 1)))
            OR push_bit 16 (byteAt buffer (offset + 2)))
           OR push_bit 24 (byteAt buffer (offset + 3)))"

definition readVertex :: "byte list \<Rightarrow> int \<Rightarrow> WalkmeshVertex" where
  "readVertex buffer offset =
     \<lparr>vx = of_int (readInt16 buffer offset),
      vy = of_int (readInt16 buffer (offset + 2)),
      vz = of_int (readInt16 buffer (offset + 4))\<rparr>"

section \<open>parseWalkmesh\<close>

definition readTriangle :: "byte list \<Rightarrow> int \<Rightarrow> int \<Rightarrow> WalkmeshTriangle" where
  \<comment> \<open>The body of the loop; \<open>sectorPoolOffset\<close> is the constant 4.\<close>
  "readTriangle buffer accessPoolOffset i =
     (let sectorOffset = 4 + i * 24;
          accessOffset = accessPoolOffset + i * 6
      in \<lparr>vertices =
            (readVertex buffer sectorOffset,
             readVertex buffer (sectorOffset + 8),
             readVertex buffer (sectorOffset + 16)),
          access =
            (readUInt16 buffer accessOffset,
             readUInt16 buffer (accessOffset + 2),
             readUInt16 buffer (accessOffset + 4))\<rparr>)"

function triangleLoop ::
  "byte list \<Rightarrow> int \<Rightarrow> int \<Rightarrow> int \<Rightarrow> WalkmeshTriangle list \<Rightarrow> WalkmeshTriangle list" where
  "triangleLoop buffer count accessPoolOffset i acc =
     (if i < count
      then triangleLoop buffer count accessPoolOffset (i + 1)
             (acc @ [readTriangle buffer accessPoolOffset i])
      else acc)"
  by pat_completeness auto
termination
  by (relation "measure (\<lambda>(buffer, count, accessPoolOffset, i, acc). nat (count - i))") auto

definition parseWalkmesh :: "byte list \<Rightarrow> Walkmesh" where
  "parseWalkmesh buffer =
     (if length buffer < 4 then \<lparr>triangleCount = 0, triangles = []\<rparr>
      else
        let count = readUInt32 buffer 0 in
        if count = 0 \<or> count > 10000 then \<lparr>triangleCount = 0, triangles = []\<rparr>
        else
          let sectorPoolOffset = 4;
              accessPoolOffset = sectorPoolOffset + count * 24
          in \<lparr>triangleCount = count,
              triangles = triangleLoop buffer count accessPoolOffset 0 []\<rparr>)"

section \<open>parseGateways\<close>

function gatewayLoop :: "byte list \<Rightarrow> int \<Rightarrow> Gateway list \<Rightarrow> Gateway list" where
  "gatewayLoop buffer i gateways =
     (if i < 12 then
        (if readUInt16 buffer (56 + i * 24 + 18) = 0
         then gatewayLoop buffer (i + 1) gateways
         else if vx (readVertex buffer (56 + i * 24)) = 0
                 \<and> vy (readVertex buffer (56 + i * 24)) = 0
                 \<and> vx (readVertex buffer (56 + i * 24 + 6)) = 0
                 \<and> vy (readVertex buffer (56 + i * 24 + 6)) = 0
         then gatewayLoop buffer (i + 1) gateways
         else gatewayLoop buffer (i + 1)
                (gateways @
                 [\<lparr>vertex1 = readVertex buffer (56 + i * 24),
                   vertex2 = readVertex buffer (56 + i * 24 + 6),
                   fieldId = readUInt16 buffer (56 + i * 24 + 18)\<rparr>]))
      else gateways)"
  by pat_completeness auto
termination
  by (relation "measure (\<lambda>(buffer, i, gateways). nat (12 - i))") auto

definition parseGateways :: "byte list \<Rightarrow> Gateway list" where
  "parseGateways buffer = (if length buffer < 344 then [] else gatewayLoop buffer 0 [])"

section \<open>calculateWalkmeshBounds\<close>

text \<open>
  The accumulators of the bounding box start at \<open>Infinity\<close> and \<open>-Infinity\<close>, so
  the numbers of this function are the rationals extended by the two infinities and
  \<open>NaN\<close>, with \<open>Math.min\<close>, \<open>Math.max\<close>, \<open>+\<close> and \<open>/ 2\<close> as IEEE 754
  defines them on these.
\<close>

datatype extnum = Num rat | PosInfinity | NegInfinity | NaN

fun Math_min :: "extnum \<Rightarrow> extnum \<Rightarrow> extnum" where
  "Math_min NaN b = NaN"
| "Math_min a NaN = NaN"
| "Math_min NegInfinity b = NegInfinity"
| "Math_min a NegInfinity = NegInfinity"
| "Math_min PosInfinity b = b"
| "Math_min a PosInfinity = a"
| "Math_min (Num a) (Num b) = Num (min a b)"

fun Math_max :: "extnum \<Rightarrow> extnum \<Rightarrow> extnum" where
  "Math_max NaN b = NaN"
| "Math_max a NaN = NaN"
| "Math_max PosInfinity b = PosInfinity"
| "Math_max a PosInfinity = PosInfinity"
| "Math_max NegInfinity b = b"
| "Math_max a NegInfinity = a"
| "Math_max (Num a) (Num b) = Num (max a b)"

fun ext_add :: "extnum \<Rightarrow> extnum \<Rightarrow> extnum" where
  "ext_add NaN b = NaN"
| "ext_add a NaN = NaN"
| "ext_add PosInfinity NegInfinity = NaN"
| "ext_add NegInfinity PosInfinity = NaN"
| "ext_add PosInfinity b = PosInfinity"
| "ext_add a PosInfinity = PosInfinity"
| "ext_add NegInfinity b = NegInfinity"
| "ext_add a NegInfinity = NegInfinity"
| "ext_add (Num a) (Num b) = Num (a + b)"

fun ext_half :: "extnum \<Rightarrow> extnum" where
  "ext_half (Num a) = Num (a / 2)"
| "ext_half a = a"

record Bounds =
  minX :: extnum
  maxX :: extnum
  minY :: extnum
  maxY :: extnum
  minZ :: extnum
  maxZ :: extnum
  centerX :: extnum
  centerY :: extnum
  centerZ :: extnum

type_synonym extremes = "extnum \<times> extnum \<times> extnum \<times> extnum \<times> extnum \<times> extnum"

definition vertexList :: "WalkmeshTriangle \<Rightarrow> WalkmeshVertex list" where
  "vertexList tri = (case vertices tri of (v0, v1, v2) \<Rightarrow> [v0, v1, v2])"

fun boundsVertex :: "extremes \<Rightarrow> WalkmeshVertex \<Rightarrow> extremes" where
  "boundsVertex (minX', maxX', minY', maxY', minZ', maxZ') v =
     (Math_min minX' (Num (vx v)), Math_max maxX' (Num (vx v)),
      Math_min minY' (Num (vy v)), Math_max maxY' (Num (vy v)),
      Math_min minZ' (Num (vz v)), Math_max maxZ' (Num (vz v)))"

definition boundsTriangle :: "extremes \<Rightarrow> WalkmeshTriangle \<Rightarrow> extremes" where
  "boundsTriangle acc tri = foldl boundsVertex acc (vertexList tri)"

definition calculateWalkmeshBounds :: "Walkmesh \<Rightarrow> Bounds" where
  "calculateWalkmeshBounds walkmesh =
     (if length (triangles walkmesh) = 0 then
        \<lparr>minX = Num 0, maxX = Num 0, minY = Num 0, maxY = Num 0, minZ = Num 0, maxZ = Num 0,
         centerX = Num 0, centerY = Num 0, centerZ = Num 0\<rparr>
      else
        (case foldl boundsTriangle
                (PosInfinity, NegInfinity, PosInfinity, NegInfinity, PosInfinity, NegInfinity)
                (triangles walkmesh)
         of (minX', maxX', minY', maxY', minZ', maxZ') \<Rightarrow>
           \<lparr>minX = minX', maxX = maxX', minY = minY', maxY = maxY', minZ = minZ', maxZ = maxZ',
            centerX = ext_half (ext_add minX' maxX'),
            centerY = ext_half (ext_add minY' maxY'),
            centerZ = ext_half (ext_add minZ' maxZ')\<rparr>))"

record TriangleInfo =
  triangleId :: int
  tz :: extnum

section \<open>Double precision arithmetic\<close>

text \<open>
  \<open>ilog2 q\<close> is the exponent of a nonzero rational: \<open>2 ^ e \<le> \<bar>q\<bar> < 2 ^ (e + 1)\<close>.
  \<open>dbl q\<close> is the double nearest to \<open>q\<close>: 53 significant bits, exponents from -1022
  (below it the spacing stays \<open>2 ^ -1074\<close>), ties to the even significand, and an
  infinity when the rounded magnitude reaches \<open>2 ^ 1024\<close>.
\<close>

definition ilog2 :: "rat \<Rightarrow> int" where
  "ilog2 q =
     (if 1 \<le> \<bar>q\<bar> then bitlen \<lfloor>\<bar>q\<bar>\<rfloor> - 1 else - bitlen (\<lceil>1 / \<bar>q\<bar>\<rceil> - 1))"

definition roundHalfEven :: "rat \<Rightarrow> int" where
  "roundHalfEven q =
     (let f = \<lfloor>q\<rfloor>; r = q - of_int f
      in if r < 1 / 2 then f else if 1 / 2 < r then f + 1 else if even f then f else f + 1)"

definition dbl :: "rat \<Rightarrow> extnum" where
  "dbl q =
     (if q = 0 then Num 0
      else
        let e = max (ilog2 q) (- 1022);
            ulp = 2 powi (e - 52);
            r = of_int (roundHalfEven (q / ulp)) * ulp
        in if 2 powi 1024 \<le> \<bar>r\<bar> then (if 0 < q then PosInfinity else NegInfinity)
           else Num r)"

fun d_neg :: "extnum \<Rightarrow> extnum" where
  "d_neg (Num a) = Num (- a)"
| "d_neg PosInfinity = NegInfinity"
| "d_neg NegInfinity = PosInfinity"
| "d_neg NaN = NaN"

fun d_abs :: "extnum \<Rightarrow> extnum" where
  "d_abs (Num a) = Num \<bar>a\<bar>"
| "d_abs PosInfinity = PosInfinity"
| "d_abs NegInfinity = PosInfinity"
| "d_abs NaN = NaN"

fun d_add :: "extnum \<Rightarrow> extnum \<Rightarrow> extnum" where
  "d_add NaN b = NaN"
| "d_add a NaN = NaN"
| "d_add PosInfinity NegInfinity = NaN"
| "d_add NegInfinity PosInfinity = NaN"
| "d_add PosInfinity b = PosInfinity"
| "d_add a PosInfinity = PosInfinity"
| "d_add NegInfinity b = NegInfinity"
| "d_add a NegInfinity = NegInfinity"
| "d_add (Num a) (Num b) = dbl (a + b)"

definition d_sub :: "extnum \<Rightarrow> extnum \<Rightarrow> extnum" where
  "d_sub a b = d_add a (d_neg b)"

fun d_mul :: "extnum \<Rightarrow> extnum \<Rightarrow> extnum" where
  "d_mul NaN b = NaN"
| "d_mul a NaN = NaN"
| "d_mul (Num a) (Num b) = dbl (a * b)"
| "d_mul (Num a) PosInfinity =
     (if a = 0 then NaN else if 0 < a then PosInfinity else NegInfinity)"
| "d_mul (Num a) NegInfinity =
     (if a = 0 then NaN else if 0 < a then NegInfinity else PosInfinity)"
| "d_mul PosInfinity (Num b) =
     (if b = 0 then NaN else if 0 < b then PosInfinity else NegInfinity)"
| "d_mul NegInfinity (Num b) =
     (if b = 0 then NaN else if 0 < b then NegInfinity else PosInfinity)"
| "d_mul PosInfinity PosInfinity = PosInfinity"
| "d_mul PosInfinity NegInfinity = NegInfinity"
| "d_mul NegInfinity PosInfinity = NegInfinity"
| "d_mul NegInfinity NegInfinity = PosInfinity"

text \<open>
  Division by a zero takes the zero as positive. No division of the program has a zero
  divisor: the divisors are the literal 3 and a \<open>denom\<close> that has failed the test
  \<open>Math.abs(denom) < 0.0001\<close>.
\<close>

fun d_div :: "extnum \<Rightarrow> extnum \<Rightarrow> extnum" where
  "d_div NaN b = NaN"
| "d_div a NaN = NaN"
| "d_div (Num a) (Num b) =
     (if b = 0 then (if a = 0 then NaN else if 0 < a then PosInfinity else NegInfinity)
      else dbl (a / b))"
| "d_div (Num a) PosInfinity = Num 0"
| "d_div (Num a) NegInfinity = Num 0"
| "d_div PosInfinity (Num b) = (if 0 \<le> b then PosInfinity else NegInfinity)"
| "d_div NegInfinity (Num b) = (if 0 \<le> b then NegInfinity else PosInfinity)"
| "d_div a b = NaN"

fun d_less :: "extnum \<Rightarrow> extnum \<Rightarrow> bool" where
  "d_less NaN b = False"
| "d_less a NaN = False"
| "d_less (Num a) (Num b) = (a < b)"
| "d_less a NegInfinity = False"
| "d_less PosInfinity b = False"
| "d_less NegInfinity b = True"
| "d_less a PosInfinity = True"

fun d_le :: "extnum \<Rightarrow> extnum \<Rightarrow> bool" where
  "d_le NaN b = False"
| "d_le a NaN = False"
| "d_le (Num a) (Num b) = (a \<le> b)"
| "d_le NegInfinity b = True"
| "d_le a PosInfinity = True"
| "d_le a NegInfinity = False"
| "d_le PosInfinity b = False"

section \<open>Point location\<close>

definition pointInTriangle ::
  "extnum \<Rightarrow> extnum \<Rightarrow> extnum \<Rightarrow> extnum \<Rightarrow> extnum \<Rightarrow> extnum \<Rightarrow> extnum \<Rightarrow> extnum \<Rightarrow> bool" where
  "pointInTriangle px py v0x v0y v1x v1y v2x v2y =
     (let dX = d_sub px v2x;
          dY = d_sub py v2y;
          dX21 = d_sub v2x v1x;
          dY12 = d_sub v1y v2y;
          D = d_add (d_mul dY12 (d_sub v0x v2x)) (d_mul dX21 (d_sub v0y v2y));
          s = d_add (d_mul dY12 dX) (d_mul dX21 dY);
          t = d_add (d_mul (d_sub v2y v0y) dX) (d_mul (d_sub v0x v2x) dY)
      in if d_less D (Num 0) then d_le s (Num 0) \<and> d_le t (Num 0) \<and> d_le D (d_add s t)
         else d_le (Num 0) s \<and> d_le (Num 0) t \<and> d_le (d_add s t) D)"

definition calculateZAtPoint :: "extnum \<Rightarrow> extnum \<Rightarrow> WalkmeshTriangle \<Rightarrow> extnum" where
  "calculateZAtPoint x y tri =
     (case vertices tri of (v0, v1, v2) \<Rightarrow>
        let denom =
              d_add (d_mul (d_sub (Num (vy v1)) (Num (vy v2))) (d_sub (Num (vx v0)) (Num (vx v2))))
                    (d_mul (d_sub (Num (vx v2)) (Num (vx v1))) (d_sub (Num (vy v0)) (Num (vy v2))))
        in if d_less (d_abs denom) (dbl (1 / 10000))
           then d_div (d_add (d_add (Num (vz v0)) (Num (vz v1))) (Num (vz v2))) (Num 3)
           else
             let w0 = d_div
                        (d_add (d_mul (d_sub (Num (vy v1)) (Num (vy v2))) (d_sub x (Num (vx v2))))
                               (d_mul (d_sub (Num (vx v2)) (Num (vx v1))) (d_sub y (Num (vy v2)))))
                        denom;
                 w1 = d_div
                        (d_add (d_mul (d_sub (Num (vy v2)) (Num (vy v0))) (d_sub x (Num (vx v2))))
                               (d_mul (d_sub (Num (vx v0)) (Num (vx v2))) (d_sub y (Num (vy v2)))))
                        denom;
                 w2 = d_sub (d_sub (Num 1) w0) w1
             in d_add (d_add (d_mul w0 (Num (vz v0))) (d_mul w1 (Num (vz v1))))
                      (d_mul w2 (Num (vz v2))))"

fun Math_round :: "extnum \<Rightarrow> extnum" where
  "Math_round (Num q) = Num (of_int \<lfloor>q + 1 / 2\<rfloor>)"
| "Math_round a = a"

definition containsPoint :: "WalkmeshTriangle \<Rightarrow> extnum \<Rightarrow> extnum \<Rightarrow> bool" where
  "containsPoint tri x y =
     (case vertices tri of (v0, v1, v2) \<Rightarrow>
        pointInTriangle x y (Num (vx v0)) (Num (vy v0)) (Num (vx v1)) (Num (vy v1))
          (Num (vx v2)) (Num (vy v2)))"

function findLoop ::
  "WalkmeshTriangle list \<Rightarrow> extnum \<Rightarrow> extnum \<Rightarrow> nat \<Rightarrow> TriangleInfo" where
  "findLoop ts x y i =
     (if i < length ts then
        (if containsPoint (ts ! i) x y
         then \<lparr>triangleId = int i, tz = Math_round (calculateZAtPoint x y (ts ! i))\<rparr>
         else findLoop ts x y (i + 1))
      else \<lparr>triangleId = - 1, tz = Num 0\<rparr>)"
  by pat_completeness auto
termination
  by (relation "measure (\<lambda>(ts, x, y, i). length ts - i)") auto

definition findTriangleAtPosition :: "Walkmesh \<Rightarrow> extnum \<Rightarrow> extnum \<Rightarrow> TriangleInfo" where
  "findTriangleAtPosition walkmesh x y = findLoop (triangles walkmesh) x y 0"

section \<open>The binary layout as the specification gives it\<close>

text \<open>
  The little-endian fields of the format, by arithmetic on the bytes and with no
  reference to the decoder: an unsigned 16-bit word, the signed value it stands for (a
  word of 0x8000 or more is the negative value word - 0x10000), and an unsigned 32-bit
  word. These read inside the buffer only.
\<close>

definition le_u16 :: "byte list \<Rightarrow> nat \<Rightarrow> int" where
  "le_u16 buf off = uint (buf ! off) + 256 * uint (buf ! (off + 1))"

definition le_s16 :: "byte list \<Rightarrow> nat \<Rightarrow> int" where
  "le_s16 buf off = (if le_u16 buf off \<ge> 0x8000 then le_u16 buf off - 0x10000 else le_u16 buf off)"

definition le_u32 :: "byte list \<Rightarrow> nat \<Rightarrow> int" where
  "le_u32 buf off =
     uint (buf ! off) + 256 * uint (buf ! (off + 1)) + 65536 * uint (buf ! (off + 2))
     + 16777216 * uint (buf ! (off + 3))"

definition layout_vertex :: "byte list \<Rightarrow> nat \<Rightarrow> WalkmeshVertex" where
  "layout_vertex buf off =
     \<lparr>vx = of_int (le_s16 buf off), vy = of_int (le_s16 buf (off + 2)),
      vz = of_int (le_s16 buf (off + 4))\<rparr>"

definition layout_triangle :: "byte list \<Rightarrow> nat \<Rightarrow> nat \<Rightarrow> WalkmeshTriangle" where
  "layout_triangle buf N i =
     \<lparr>vertices =
        (layout_vertex buf (4 + i * 24 + 0 * 8),
         layout_vertex buf (4 + i * 24 + 1 * 8),
         layout_vertex buf (4 + i * 24 + 2 * 8)),
      access =
        (le_u16 buf ((4 + N * 24) + i * 6 + 2 * 0),
         le_u16 buf ((4 + N * 24) + i * 6 + 2 * 1),
         le_u16 buf ((4 + N * 24) + i * 6 + 2 * 2))\<rparr>"

definition slot_kept :: "byte list \<Rightarrow> nat \<Rightarrow> bool" where
  "slot_kept buf i =
     (le_u16 buf (56 + i * 24 + 18) \<noteq> 0
      \<and> \<not> (le_s16 buf (56 + i * 24 + 0) = 0 \<and> le_s16 buf (56 + i * 24 + 2) = 0
           \<and> le_s16 buf (56 + i * 24 + 6) = 0 \<and> le_s16 buf (56 + i * 24 + 8) = 0))"

definition layout_gateway :: "byte list \<Rightarrow> nat \<Rightarrow> Gateway" where
  "layout_gateway buf i =
     \<lparr>vertex1 = layout_vertex buf (56 + i * 24 + 0),
      vertex2 = layout_vertex buf (56 + i * 24 + 6),
      fieldId = le_u16 buf (56 + i * 24 + 18)\<rparr>"

text \<open>A gateway table of 344 bytes: slots 0 and 3 are in use, slot 1 has field
  identifier 0, slot 2 has all four x and y equal to 0 (and nonzero z).\<close>

definition example_gateways :: "byte list" where
  "example_gateways =
     replicate 56 0
     @ [0x0A, 0, 0xF6, 0xFF, 1, 0, 0x14, 0, 0, 0, 0, 0, 0, 0, 0, 0, 0, 0, 5, 0, 0, 0, 0, 0]
     @ [0x0A, 0, 0xF6, 0xFF, 1, 0, 0x14, 0, 0, 0, 0, 0, 0, 0, 0, 0, 0, 0, 0, 0, 0, 0, 0, 0]
     @ [0, 0, 0, 0, 7, 0, 0, 0, 0, 0, 8, 0, 0, 0, 0, 0, 0, 0, 9, 0, 0, 0, 0, 0]
     @ [0, 0, 0, 0, 0, 0, 0, 0, 0xFF, 0xFF, 0, 0, 0, 0, 0, 0, 0, 0, 2, 1, 0, 0, 0, 0]
     @ replicate 192 0"

section \<open>Plane geometry as the specification gives it\<close>

text \<open>
  Twice the signed area of the triangle \<open>v0 v1 v2\<close> in the x-y plane (positive when
  the vertices run counter-clockwise), the closed triangle as the set of convex
  combinations of its vertices, and three points on one line \<open>p x + q y = r\<close>.
  The example triangle is the one of the specification: (0,0,0), (10,0,0), (0,10,30).
\<close>

definition twice_signed_area :: "rat \<Rightarrow> rat \<Rightarrow> rat \<Rightarrow> rat \<Rightarrow> rat \<Rightarrow> rat \<Rightarrow> rat" where
  "twice_signed_area v0x v0y v1x v1y v2x v2y =
     (v1x - v0x) * (v2y - v0y) - (v2x - v0x) * (v1y - v0y)"

definition in_closed_triangle ::
  "rat \<Rightarrow> rat \<Rightarrow> rat \<Rightarrow> rat \<Rightarrow> rat \<Rightarrow> rat \<Rightarrow> rat \<Rightarrow> rat \<Rightarrow> bool" where
  "in_closed_triangle px py v0x v0y v1x v1y v2x v2y =
     (\<exists>a b c. 0 \<le> a \<and> 0 \<le> b \<and> 0 \<le> c \<and> a + b + c = 1
        \<and> px = a * v0x + b * v1x + c * v2x
        \<and> py = a * v0y + b * v1y + c * v2y)"

text \<open>The containment test of the source, evaluated in exact arithmetic.\<close>

definition pointInTriangle_exact ::
  "rat \<Rightarrow> rat \<Rightarrow> rat \<Rightarrow> rat \<Rightarrow> rat \<Rightarrow> rat \<Rightarrow> rat \<Rightarrow> rat \<Rightarrow> bool" where
  "pointInTriangle_exact px py v0x v0y v1x v1y v2x v2y =
     (let dX = px - v2x;
          dY = py - v2y;
          dX21 = v2x - v1x;
          dY12 = v1y - v2y;
          D = dY12 * (v0x - v2x) + dX21 * (v0y - v2y);
          s = dY12 * dX + dX21 * dY;
          t = (v2y - v0y) * dX + (v0x - v2x) * dY
      in if D < 0 then s \<le> 0 \<and> t \<le> 0 \<and> s + t \<ge> D
         else s \<ge> 0 \<and> t \<ge> 0 \<and> s + t \<le> D)"


definition example_triangle :: WalkmeshTriangle where
  "example_triangle =
     \<lparr>vertices = (\<lparr>vx = 0, vy = 0, vz = 0\<rparr>, \<lparr>vx = 10, vy = 0, vz = 0\<rparr>,
                   \<lparr>vx = 0, vy = 10, vz = 30\<rparr>),
      access = (65535, 65535, 65535)\<rparr>"

definition example_mesh :: Walkmesh where
  "example_mesh =
     \<lparr>triangleCount = 2,
      triangles =
        [example_triangle,
         \<lparr>vertices = (\<lparr>vx = - 5, vy = - 5, vz = 7\<rparr>, \<lparr>vx = 20, vy = - 5, vz = 7\<rparr>,
                       \<lparr>vx = - 5, vy = 20, vz = 7\<rparr>),
           access = (65535, 65535, 65535)\<rparr>]\<rparr>"

text \<open>Every vertex of every triangle of a walkmesh.\<close>



definition mesh_vertices :: "Walkmesh \<Rightarrow> WalkmeshVertex set" where
  "mesh_vertices walkmesh =
     (\<Union>tri \<in> set (triangles walkmesh). case vertices tri of (v0, v1, v2) \<Rightarrow> {v0, v1, v2})"

definition triangle_fields :: "nat \<Rightarrow> nat \<Rightarrow> WalkmeshTriangle \<Rightarrow> (nat \<times> rat) list" where
  \<comment> \<open>The twelve fields of triangle \<open>i\<close> of a mesh of \<open>N\<close> triangles: the offset of
      each field's first byte, with the decoded value.\<close>
  "triangle_fields N i tri =
     (case vertices tri of (v0, v1, v2) \<Rightarrow>
      case access tri of (a0, a1, a2) \<Rightarrow>
        [(4 + i * 24 + 0, vx v0), (4 + i * 24 + 2, vy v0), (4 + i * 24 + 4, vz v0),
         (4 + i * 24 + 8, vx v1), (4 + i * 24 + 10, vy v1), (4 + i * 24 + 12, vz v1),
         (4 + i * 24 + 16, vx v2), (4 + i * 24 + 18, vy v2), (4 + i * 24 + 20, vz v2),
         ((4 + N * 24) + i * 6 + 0, of_int a0), ((4 + N * 24) + i * 6 + 2, of_int a1),
         ((4 + N * 24) + i * 6 + 4, of_int a2)])"

definition paddedByte :: "byte list \<Rightarrow> int \<Rightarrow> byte" where
  \<comment> \<open>The byte a read at \<open>offset\<close> sees: the stored one, or 0 outside the buffer.\<close>
  "paddedByte buffer offset =
     (if 0 \<le> offset \<and> offset < int (length buffer) then buffer ! nat offset else 0)"

section \<open>Bytes, words and the readers\<close>

lemma byteAt_padded: "byteAt buffer offset = ucast (paddedByte buffer offset)"
  by (simp add: byteAt_def paddedByte_def)

lemma byte_bounds: "0 \<le> uint (a::byte)" "uint (a::byte) \<le> 255"
  using uint_bounded[of a] by simp_all

lemma or_push_int:
  assumes "0 \<le> a" "a < 2 ^ n"
  shows "(a::int) OR push_bit n b = a + 2 ^ n * b"
proof -
  from assms have tb: "take_bit n a = a" by (simp add: take_bit_int_eq_self)
  then have "a OR push_bit n b = concat_bit n a b" by (simp add: concat_bit_def)
  also have "\<dots> = a + push_bit n b" using tb by (simp add: concat_bit_eq)
  finally show ?thesis by (simp add: push_bit_eq_mult mult.commute)
qed

lemma uint_push_byte:
  assumes "n \<le> 24"
  shows "uint (push_bit n (ucast (b::byte) :: 32 word)) = 2 ^ n * uint b"
proof -
  have b: "uint b < 2 ^ 8" "0 \<le> uint b" using byte_bounds[of b] by auto
  have "(2::int) ^ n * uint b < 2 ^ n * 2 ^ 8" using b by simp
  also have "\<dots> = 2 ^ (n + 8)" by (simp add: power_add)
  also have "\<dots> \<le> 2 ^ 32" using assms by (intro power_increasing) auto
  finally have lt: "(2::int) ^ n * uint b < 2 ^ 32" .
  have "uint (push_bit n (ucast b :: 32 word)) = take_bit 32 (push_bit n (uint b))"
    by (simp add: unsigned_push_bit_eq uint_up_ucast is_up del: push_bit_eq_mult)
  also have "\<dots> = push_bit n (uint b)"
    using lt b by (intro take_bit_int_eq_self) (auto simp: push_bit_eq_mult mult.commute)
  finally show ?thesis by (simp add: push_bit_eq_mult mult.commute)
qed

lemma uint_ucast_byte: "uint (ucast (a::byte) :: 32 word) = uint a"
  by (simp add: uint_up_ucast is_up)

lemma uint_push_bytes:
  "uint (push_bit 8 (ucast (b::byte) :: 32 word)) = push_bit 8 (uint b)"
  "uint (push_bit 16 (ucast (b::byte) :: 32 word)) = push_bit 16 (uint b)"
  "uint (push_bit 24 (ucast (b::byte) :: 32 word)) = push_bit 24 (uint b)"
  using uint_push_byte[of 8 b] uint_push_byte[of 16 b] uint_push_byte[of 24 b]
  by (simp_all add: push_bit_eq_mult mult.commute)

lemma uint_or16:
  "uint ((ucast (a::byte) :: 32 word) OR push_bit 8 (ucast (b::byte))) = uint a + 256 * uint b"
proof -
  have "uint ((ucast a :: 32 word) OR push_bit 8 (ucast b)) = uint a OR push_bit 8 (uint b)"
    by (simp only: uint_or uint_push_bytes uint_ucast_byte)
  also have "\<dots> = uint a + 2 ^ 8 * uint b"
    using byte_bounds[of a] by (intro or_push_int) auto
  finally show ?thesis by simp
qed

lemma uint_or32:
  "uint ((((ucast (a::byte) :: 32 word) OR push_bit 8 (ucast (b::byte)))
         OR push_bit 16 (ucast (c::byte))) OR push_bit 24 (ucast (d::byte)))
   = uint a + 256 * uint b + 65536 * uint c + 16777216 * uint d"
proof -
  let ?ab = "uint a + 256 * uint b"
  have ab: "0 \<le> ?ab" "?ab < 2 ^ 16"
    using byte_bounds[of a] byte_bounds[of b] by auto
  have ab_or: "uint a OR push_bit 8 (uint b) = ?ab"
    using byte_bounds[of a] or_push_int[of "uint a" 8 "uint b"] by simp
  let ?abc = "?ab + 2 ^ 16 * uint c"
  have abc: "0 \<le> ?abc" "?abc < 2 ^ 24"
    using ab byte_bounds[of c] by auto
  have "uint ((((ucast a :: 32 word) OR push_bit 8 (ucast b))
         OR push_bit 16 (ucast c)) OR push_bit 24 (ucast d))
        = (?ab OR push_bit 16 (uint c)) OR push_bit 24 (uint d)"
    by (simp only: uint_or uint_push_bytes uint_ucast_byte ab_or)
  also have "?ab OR push_bit 16 (uint c) = ?abc"
    using ab by (intro or_push_int) auto
  also have "?abc OR push_bit 24 (uint d) = ?abc + 2 ^ 24 * uint d"
    using abc by (intro or_push_int) auto
  finally show ?thesis by simp
qed

lemma sint_of_uint32:
  "sint (w :: 32 word) = (if uint w \<ge> 2 ^ 31 then uint w - 2 ^ 32 else uint w)"
proof -
  have b: "0 \<le> uint w" "uint w < 2 ^ 32" using uint_bounded[of w] by auto
  have "sint w = take_bit 32 (uint w + 2 ^ 31) - 2 ^ 31"
    by (simp add: sint_uint signed_take_bit_eq_take_bit_shift)
  also have "\<dots> = (uint w + 2 ^ 31) mod 2 ^ 32 - 2 ^ 31"
    by (simp add: take_bit_eq_mod)
  also have "\<dots> = (if uint w \<ge> 2 ^ 31 then uint w - 2 ^ 32 else uint w)"
  proof (cases "uint w \<ge> 2 ^ 31")
    case True
    then have "(uint w + 2 ^ 31) mod 2 ^ 32 = uint w + 2 ^ 31 - 2 ^ 32"
      using b by (simp add: mod_pos_geq)
    then show ?thesis using True by simp
  next
    case False
    then have "(uint w + 2 ^ 31) mod 2 ^ 32 = uint w + 2 ^ 31"
      using b by simp
    then show ?thesis using False by simp
  qed
  finally show ?thesis .
qed

lemma readUInt16_eq:
  "readUInt16 buffer offset
   = uint (paddedByte buffer offset) + 256 * uint (paddedByte buffer (offset + 1))"
proof -
  let ?v = "uint (paddedByte buffer offset) + 256 * uint (paddedByte buffer (offset + 1))"
  have "0 \<le> ?v" "?v < 2 ^ 31"
    using byte_bounds[of "paddedByte buffer offset"] byte_bounds[of "paddedByte buffer (offset + 1)"]
    by auto
  then show ?thesis
    by (simp add: readUInt16_def byteAt_padded sint_of_uint32 uint_or16)
qed

lemma readInt16_eq:
  "readInt16 buffer offset =
     (let w = uint (paddedByte buffer offset) + 256 * uint (paddedByte buffer (offset + 1))
      in if w \<ge> 0x8000 then w - 0x10000 else w)"
proof -
  have "readInt16 buffer offset =
     (let val = readUInt16 buffer offset in if val > 0x7FFF then val - 0x10000 else val)"
    by (simp add: readInt16_def readUInt16_def)
  then show ?thesis by (simp add: readUInt16_eq Let_def)
qed

lemma readUInt32_eq:
  "readUInt32 buffer offset =
     (let u = uint (paddedByte buffer offset) + 256 * uint (paddedByte buffer (offset + 1))
              + 65536 * uint (paddedByte buffer (offset + 2))
              + 16777216 * uint (paddedByte buffer (offset + 3))
      in if u \<ge> 2 ^ 31 then u - 2 ^ 32 else u)"
  by (simp only: readUInt32_def byteAt_padded sint_of_uint32 uint_or32 Let_def)

section \<open>The loop of parseWalkmesh\<close>

declare triangleLoop.simps [simp del]

lemma triangleLoop_eq:
  "0 \<le> i \<Longrightarrow> triangleLoop buffer count apo i acc
     = acc @ map (\<lambda>k. readTriangle buffer apo (int k)) [nat i..<nat count]"
proof (induction buffer count apo i acc rule: triangleLoop.induct)
  case (1 buffer count apo i acc)
  show ?case
  proof (cases "i < count")
    case True
    with "1.prems" have lt: "nat i < nat count" by simp
    from "1.prems" have suc: "nat (i + 1) = Suc (nat i)" by simp
    have up: "[nat i..<nat count] = nat i # [Suc (nat i)..<nat count]"
      using lt by (rule upt_conv_Cons)
    have "triangleLoop buffer count apo i acc
          = triangleLoop buffer count apo (i + 1) (acc @ [readTriangle buffer apo i])"
      using True by (subst triangleLoop.simps) simp
    also have "\<dots> = (acc @ [readTriangle buffer apo i])
          @ map (\<lambda>k. readTriangle buffer apo (int k)) [nat (i + 1)..<nat count]"
      using True "1.prems" by (intro "1.IH") auto
    also have "\<dots> = acc @ map (\<lambda>k. readTriangle buffer apo (int k)) (nat i # [Suc (nat i)..<nat count])"
      using "1.prems" by (simp only: suc) simp
    finally show ?thesis by (simp only: up)
  next
    case False
    then have "[nat i..<nat count] = []" by simp
    with False show ?thesis by (subst triangleLoop.simps) simp
  qed
qed

lemma paddedByte_in: "off < length buf \<Longrightarrow> paddedByte buf (int off) = buf ! off"
  by (simp add: paddedByte_def)

lemma paddedByte_out: "int (length buf) \<le> off \<Longrightarrow> paddedByte buf off = 0"
  by (simp add: paddedByte_def)

lemma paddedByte_zero_fill: "paddedByte (buf @ replicate k 0) off = paddedByte buf off"
  by (auto simp: paddedByte_def nth_append)

lemma paddedByte_in_add:
  "off + k < length buf \<Longrightarrow> paddedByte buf (int off + int k) = buf ! (off + k)"
  using paddedByte_in[of "off + k" buf] by simp

lemma readUInt16_in:
  assumes "off + 1 < length buf"
  shows "readUInt16 buf (int off) = le_u16 buf off"
proof -
  have "paddedByte buf (int off) = buf ! off" "paddedByte buf (int off + 1) = buf ! (off + 1)"
    using assms paddedByte_in[of off buf] paddedByte_in_add[of off 1 buf] by simp_all
  then show ?thesis
    by (simp only: readUInt16_eq le_u16_def)
qed

lemma readInt16_in:
  assumes "off + 1 < length buf"
  shows "readInt16 buf (int off) = le_s16 buf off"
proof -
  have "paddedByte buf (int off) = buf ! off" "paddedByte buf (int off + 1) = buf ! (off + 1)"
    using assms paddedByte_in[of off buf] paddedByte_in_add[of off 1 buf] by simp_all
  then show ?thesis
    by (simp only: readInt16_eq le_s16_def le_u16_def Let_def)
qed

lemma readVertex_in:
  assumes "off + 5 < length buf"
  shows "readVertex buf (int off) = layout_vertex buf off"
proof -
  have "readInt16 buf (int off) = le_s16 buf off"
    "readInt16 buf (int (off + 2)) = le_s16 buf (off + 2)"
    "readInt16 buf (int (off + 4)) = le_s16 buf (off + 4)"
    using assms by (simp_all only: readInt16_in)
  moreover have "int off + 2 = int (off + 2)" "int off + 4 = int (off + 4)" by simp_all
  ultimately show ?thesis
    by (simp only: readVertex_def layout_vertex_def)
qed

lemma readTriangle_in:
  assumes "i < N" "4 + N * 30 \<le> length buf"
  shows "readTriangle buf (4 + int N * 24) (int i) = layout_triangle buf N i"
proof -
  have r1: "readVertex buf (4 + int i * 24) = layout_vertex buf (4 + i * 24)"
    using readVertex_in[of "4 + i * 24" buf] assms by simp
  have r2: "readVertex buf (12 + int i * 24) = layout_vertex buf (12 + i * 24)"
    using readVertex_in[of "12 + i * 24" buf] assms by simp
  have r3: "readVertex buf (20 + int i * 24) = layout_vertex buf (20 + i * 24)"
    using readVertex_in[of "20 + i * 24" buf] assms by simp
  have a1: "readUInt16 buf (4 + int N * 24 + int i * 6) = le_u16 buf (4 + N * 24 + i * 6)"
    using readUInt16_in[of "4 + N * 24 + i * 6" buf] assms by simp
  have a2: "readUInt16 buf (6 + (int N * 24 + int i * 6)) = le_u16 buf (6 + (N * 24 + i * 6))"
    using readUInt16_in[of "6 + (N * 24 + i * 6)" buf] assms by simp
  have a3: "readUInt16 buf (8 + (int N * 24 + int i * 6)) = le_u16 buf (8 + (N * 24 + i * 6))"
    using readUInt16_in[of "8 + (N * 24 + i * 6)" buf] assms by simp
  show ?thesis
    by (simp add: readTriangle_def layout_triangle_def Let_def r1 r2 r3 a1 a2 a3)
qed

lemma readUInt32_header:
  assumes "4 \<le> length buf"
  shows "readUInt32 buf 0 =
     (if le_u32 buf 0 \<ge> 2 ^ 31 then le_u32 buf 0 - 2 ^ 32 else le_u32 buf 0)"
proof -
  have p: "paddedByte buf 0 = buf ! 0" "paddedByte buf 1 = buf ! 1"
    "paddedByte buf 2 = buf ! 2" "paddedByte buf 3 = buf ! 3"
    using assms by (auto simp: paddedByte_def)
  have e: "(0::int) + 1 = 1" "(0::int) + 2 = 2" "(0::int) + 3 = 3"
    "(0::nat) + 1 = 1" "(0::nat) + 2 = 2" "(0::nat) + 3 = 3" by simp_all
  show ?thesis
    by (simp only: readUInt32_eq le_u32_def Let_def e p)
qed

lemma parseWalkmesh_count:
  assumes "4 \<le> length buf" "readUInt32 buf 0 = c" "1 \<le> c" "c \<le> 10000"
  shows "parseWalkmesh buf =
     \<lparr>triangleCount = c,
      triangles = map (\<lambda>k. readTriangle buf (4 + c * 24) (int k)) [0..<nat c]\<rparr>"
  using assms triangleLoop_eq[of 0 buf c "4 + c * 24" "[]"]
  by (simp add: parseWalkmesh_def Let_def)

section \<open>Reads outside the buffer, and the header\<close>

lemma readUInt16_out: "int (length buf) \<le> off \<Longrightarrow> readUInt16 buf off = 0"
  by (simp add: readUInt16_eq paddedByte_out)

lemma readInt16_out: "int (length buf) \<le> off \<Longrightarrow> readInt16 buf off = 0"
  by (simp add: readInt16_eq paddedByte_out)

lemma readUInt16_zero_fill: "readUInt16 (buf @ replicate k 0) off = readUInt16 buf off"
  by (simp only: readUInt16_eq paddedByte_zero_fill)

lemma readInt16_zero_fill: "readInt16 (buf @ replicate k 0) off = readInt16 buf off"
  by (simp only: readInt16_eq paddedByte_zero_fill)

lemma readUInt32_zero_fill: "readUInt32 (buf @ replicate k 0) off = readUInt32 buf off"
  by (simp only: readUInt32_eq paddedByte_zero_fill)

lemma readTriangle_zero_fill:
  "readTriangle (buf @ replicate k 0) apo i = readTriangle buf apo i"
  by (simp only: readTriangle_def readVertex_def readInt16_zero_fill readUInt16_zero_fill)

lemma parseWalkmesh_zero_fill:
  assumes "4 \<le> length buf"
  shows "parseWalkmesh (buf @ replicate k 0) = parseWalkmesh buf"
proof -
  have "\<not> length (buf @ replicate k 0) < 4" "\<not> length buf < 4" using assms by simp_all
  then show ?thesis
    by (simp only: parseWalkmesh_def readUInt32_zero_fill triangleLoop_eq[OF order_refl]
        readTriangle_zero_fill if_False)
qed

lemma parseWalkmesh_malformed:
  assumes "length buf < 4 \<or> le_u32 buf 0 = 0 \<or> (10000 < le_u32 buf 0 \<and> le_u32 buf 0 < 2 ^ 31)"
  shows "parseWalkmesh buf = \<lparr>triangleCount = 0, triangles = []\<rparr>"
proof (cases "length buf < 4")
  case True
  then show ?thesis by (simp add: parseWalkmesh_def)
next
  case False
  then have len: "4 \<le> length buf" by simp
  from assms False have "readUInt32 buf 0 = 0 \<or> readUInt32 buf 0 > 10000"
    by (auto simp: readUInt32_header[OF len])
  then show ?thesis by (auto simp: parseWalkmesh_def Let_def)
qed

lemma le_u32_bounds: "0 \<le> le_u32 buf off" "le_u32 buf off < 2 ^ 32"
  using byte_bounds[of "buf ! off"] byte_bounds[of "buf ! (off + 1)"]
    byte_bounds[of "buf ! (off + 2)"] byte_bounds[of "buf ! (off + 3)"]
  by (simp_all add: le_u32_def)

lemma parseWalkmesh_negative_count:
  assumes "4 \<le> length buf" "2 ^ 31 \<le> le_u32 buf 0"
  shows "parseWalkmesh buf = \<lparr>triangleCount = le_u32 buf 0 - 2 ^ 32, triangles = []\<rparr>"
proof -
  have u: "le_u32 buf 0 < 2 ^ 32" by (rule le_u32_bounds)
  have c: "readUInt32 buf 0 = le_u32 buf 0 - 2 ^ 32"
    using assms by (simp add: readUInt32_header)
  then have neg: "readUInt32 buf 0 < 0" using u by simp
  then have "triangleLoop buf (readUInt32 buf 0) (4 + readUInt32 buf 0 * 24) 0 [] = []"
    by (subst triangleLoop.simps) simp
  then show ?thesis
    using assms(1) neg c by (simp add: parseWalkmesh_def Let_def)
qed

lemma parseWalkmesh_invariant_below_2_31:
  assumes "length buf < 4 \<or> le_u32 buf 0 < 2 ^ 31"
  shows "int (length (triangles (parseWalkmesh buf))) = triangleCount (parseWalkmesh buf)"
proof (cases "length buf < 4 \<or> le_u32 buf 0 = 0 \<or> 10000 < le_u32 buf 0")
  case True
  with assms have "parseWalkmesh buf = \<lparr>triangleCount = 0, triangles = []\<rparr>"
    by (intro parseWalkmesh_malformed) auto
  then show ?thesis by simp
next
  case False
  then have len: "4 \<le> length buf" and r: "le_u32 buf 0 \<noteq> 0" "le_u32 buf 0 \<le> 10000" by auto
  have "0 \<le> le_u32 buf 0" by (rule le_u32_bounds)
  with r have c: "readUInt32 buf 0 = le_u32 buf 0" "1 \<le> le_u32 buf 0"
    by (simp_all add: readUInt32_header[OF len])
  show ?thesis
    using parseWalkmesh_count[OF len c(1) c(2) r(2)] c(2) by simp
qed

lemma fields_beyond_end:
  assumes "int (length buf) \<le> int off" "(off, v) \<in> set (triangle_fields N i (readTriangle buf (4 + int N * 24) (int i)))"
  shows "v = 0"
  using assms
  by (auto simp: triangle_fields_def readTriangle_def readVertex_def Let_def
      readInt16_out readUInt16_out)

section \<open>The layout reads back the little-endian two's complement encoding\<close>

text \<open>
  A value \<open>c\<close> from -32768 to 32767 that is stored as its low byte followed by its
  high byte (two's complement) is the value that \<open>le_s16\<close> reads there.
\<close>

lemma le_u16_encoded:
  assumes "buf ! off = word_of_int c" "buf ! (off + 1) = word_of_int (c div 256)"
  shows "le_u16 buf off = c mod 65536"
proof -
  have "uint (word_of_int c :: byte) = c mod 256"
    by (simp add: uint_word_of_int)
  moreover have "uint (word_of_int (c div 256) :: byte) = (c div 256) mod 256"
    by (simp add: uint_word_of_int)
  moreover have "c mod 65536 = c mod 256 + 256 * ((c div 256) mod 256)"
    using zmod_zmult2_eq[of 256 c 256] by simp
  ultimately show ?thesis using assms by (simp add: le_u16_def)
qed

lemma le_s16_encoded:
  assumes "- 32768 \<le> c" "c \<le> 32767"
    and "buf ! off = word_of_int c" "buf ! (off + 1) = word_of_int (c div 256)"
  shows "le_s16 buf off = c"
proof -
  have u: "le_u16 buf off = c mod 65536" using assms(3,4) by (rule le_u16_encoded)
  show ?thesis
  proof (cases "0 \<le> c")
    case True
    with assms have "c mod 65536 = c" by simp
    with True assms show ?thesis by (simp add: le_s16_def u)
  next
    case False
    have "(c + 65536) mod 65536 = c + 65536"
      using False assms by (intro mod_pos_pos_trivial) auto
    then have "c mod 65536 = c + 65536" by simp
    with False assms show ?thesis by (simp add: le_s16_def u)
  qed
qed

section \<open>Walkmesh decoding: claims\<close>

text \<open>
  C1. Round trip of the walkmesh decoder. For every count \<open>N\<close> from 1 to 10000 and
  every buffer of at least \<open>4 + N * 30\<close> bytes whose first four bytes are \<open>N\<close> as a
  little-endian unsigned integer, \<open>parseWalkmesh\<close> returns the count \<open>N\<close> and exactly
  the \<open>N\<close> triangles that the layout stores, in the order of the file: vertex \<open>j\<close> of
  triangle \<open>i\<close> from the signed 16-bit words at \<open>4 + i * 24 + j * 8\<close> (+0, +2, +4), a
  stored word of 0x8000 or more being the negative value word - 0x10000, and the access
  value of edge \<open>e\<close> from the unsigned 16-bit word at \<open>(4 + N * 24) + i * 6 + 2 * e\<close>.
\<close>

theorem parseWalkmesh_roundtrip:
  assumes "1 \<le> N" "N \<le> 10000" "4 + N * 30 \<le> length buf" "le_u32 buf 0 = int N"
  shows "parseWalkmesh buf =
     \<lparr>triangleCount = int N, triangles = map (layout_triangle buf N) [0..<N]\<rparr>"
proof -
  have len: "4 \<le> length buf" using assms by simp
  have c: "readUInt32 buf 0 = int N"
    using assms by (simp add: readUInt32_header[OF len])
  have "map (\<lambda>k. readTriangle buf (4 + int N * 24) (int k)) [0..<N]
        = map (layout_triangle buf N) [0..<N]"
    using assms(3) by (intro map_cong) (auto simp: readTriangle_in)
  then show ?thesis
    using parseWalkmesh_count[OF len c] assms by simp
qed

theorem parseWalkmesh_roundtrip_witness:
  "parseWalkmesh [1, 0, 0, 0,
                  0xFF, 0xFF, 0x00, 0x80, 0x10, 0x00, 0xAA, 0xBB,
                  0x2C, 0x01, 0xFE, 0xFF, 0x00, 0x00, 0xCC, 0xDD,
                  0x00, 0x00, 0x0A, 0x00, 0xFF, 0x7F, 0xEE, 0xFF,
                  0x00, 0x00, 0xFF, 0xFF, 0x03, 0x00, 0x99]
   = \<lparr>triangleCount = 1,
      triangles =
        [\<lparr>vertices = (\<lparr>vx = - 1, vy = - 32768, vz = 16\<rparr>,
                      \<lparr>vx = 300, vy = - 2, vz = 0\<rparr>,
                      \<lparr>vx = 0, vy = 10, vz = 32767\<rparr>),
          access = (0, 65535, 3)\<rparr>]\<rparr>"
  using parseWalkmesh_roundtrip [of 1 "[1, 0, 0, 0,
                  0xFF, 0xFF, 0x00, 0x80, 0x10, 0x00, 0xAA, 0xBB,
                  0x2C, 0x01, 0xFE, 0xFF, 0x00, 0x00, 0xCC, 0xDD,
                  0x00, 0x00, 0x0A, 0x00, 0xFF, 0x7F, 0xEE, 0xFF,
                  0x00, 0x00, 0xFF, 0xFF, 0x03, 0x00, 0x99]"]
  by (simp add: le_u32_def layout_triangle_def layout_vertex_def le_s16_def le_u16_def)

text \<open>
  C2. The claim: a buffer shorter than 4 bytes, or one whose first four bytes, read as a
  little-endian unsigned 32-bit integer, are 0 or more than 10000, decodes to the
  empty walkmesh (\<open>triangleCount = 0\<close>, no triangles). The decoder builds the count
  with \<open>|\<close> and \<open><< 24\<close>, which give a signed 32-bit value: a header of
  \<open>2 ^ 31\<close> or more is read as a negative count, passes both tests of the guard, and
  comes back as the \<open>triangleCount\<close> of a walkmesh with no triangles. Here the header
  \<open>00 00 00 80\<close> (2147483648) gives \<open>triangleCount = -2147483648\<close>.
  (\<open>parseWalkmesh_malformed\<close> is the part of the claim that holds: headers below
  \<open>2 ^ 31\<close>.)
\<close>

theorem parseWalkmesh_header_top_bit:
  "le_u32 [0, 0, 0, 0x80] 0 = 2147483648
   \<and> parseWalkmesh [0, 0, 0, 0x80] = \<lparr>triangleCount = - 2147483648, triangles = []\<rparr>"
  using parseWalkmesh_negative_count [of "[0, 0, 0, 0x80]"]
  by (simp add: le_u32_def)

text \<open>
  C3. The claim: for every buffer the result satisfies
  \<open>triangles.length = triangleCount\<close>. The header \<open>FF FF FF FF\<close> is read as the
  count \<open>-1\<close>, the loop does not run, and the result has \<open>triangleCount = -1\<close> with
  an empty triangle list. (\<open>parseWalkmesh_invariant_below_2_31\<close> is the part of
  the claim that holds.)
\<close>

theorem parseWalkmesh_count_mismatch:
  "parseWalkmesh [0xFF, 0xFF, 0xFF, 0xFF] = \<lparr>triangleCount = - 1, triangles = []\<rparr>
   \<and> int (length (triangles (parseWalkmesh [0xFF, 0xFF, 0xFF, 0xFF])))
       \<noteq> triangleCount (parseWalkmesh [0xFF, 0xFF, 0xFF, 0xFF])"
  using parseWalkmesh_negative_count [of "[0xFF, 0xFF, 0xFF, 0xFF]"]
  by (simp add: le_u32_def)

text \<open>
  C10. \<open>parseWalkmesh\<close> on a truncated buffer: when the header count \<open>N\<close> is between 1
  and 10000 and the buffer has fewer than \<open>4 + N * 30\<close> bytes, the decoder still
  returns the count \<open>N\<close> and \<open>N\<close> triangles; a read at or past the end of the buffer
  behaves as a read of 0, so the result is that of the buffer filled up with zero bytes
  to \<open>4 + N * 30\<close>, and every field whose first byte lies at or past the end decodes
  to 0. The model has no error value because the source has no failing path: the
  function is total.
\<close>

theorem parseWalkmesh_truncated:
  assumes "4 \<le> length buf" "le_u32 buf 0 = int N" "1 \<le> N" "N \<le> 10000"
    "length buf < 4 + N * 30"
  shows "triangleCount (parseWalkmesh buf) = int N
     \<and> length (triangles (parseWalkmesh buf)) = N
     \<and> parseWalkmesh buf = parseWalkmesh (buf @ replicate (4 + N * 30 - length buf) 0)
     \<and> (\<forall>i<N. \<forall>(off, v) \<in> set (triangle_fields N i (triangles (parseWalkmesh buf) ! i)).
           length buf \<le> off \<longrightarrow> v = 0)"
proof -
  have c: "readUInt32 buf 0 = int N"
    using assms by (simp add: readUInt32_header)
  have p: "parseWalkmesh buf = \<lparr>triangleCount = int N,
      triangles = map (\<lambda>k. readTriangle buf (4 + int N * 24) (int k)) [0..<N]\<rparr>"
    using parseWalkmesh_count[OF assms(1) c] assms by simp
  have z: "parseWalkmesh buf = parseWalkmesh (buf @ replicate (4 + N * 30 - length buf) 0)"
    using parseWalkmesh_zero_fill[OF assms(1)] by simp
  have f: "\<forall>i<N. \<forall>(off, v) \<in> set (triangle_fields N i (triangles (parseWalkmesh buf) ! i)).
           length buf \<le> off \<longrightarrow> v = 0"
    using fields_beyond_end[of buf _ _ N] by (auto simp: p)
  have a: "triangleCount (parseWalkmesh buf) = int N" by (simp add: p)
  have b: "length (triangles (parseWalkmesh buf)) = N" by (simp add: p)
  show ?thesis using a b z f by blast
qed

theorem parseWalkmesh_truncated_witness:
  "length [1, 0, 0, 0, 0x34, 0x12, 0xFF :: byte] < 4 + 1 * 30
   \<and> le_u32 [1, 0, 0, 0, 0x34, 0x12, 0xFF] 0 = 1
   \<and> parseWalkmesh [1, 0, 0, 0, 0x34, 0x12, 0xFF]
       = parseWalkmesh ([1, 0, 0, 0, 0x34, 0x12, 0xFF] @ replicate 27 0)
   \<and> parseWalkmesh [1, 0, 0, 0, 0x34, 0x12, 0xFF]
       = \<lparr>triangleCount = 1,
          triangles =
            [\<lparr>vertices = (\<lparr>vx = 4660, vy = 255, vz = 0\<rparr>,
                          \<lparr>vx = 0, vy = 0, vz = 0\<rparr>,
                          \<lparr>vx = 0, vy = 0, vz = 0\<rparr>),
              access = (0, 0, 0)\<rparr>]\<rparr>"
proof -
  let ?buf = "[1, 0, 0, 0, 0x34, 0x12, 0xFF :: byte]"
  have h: "4 \<le> length ?buf" "le_u32 ?buf 0 = int 1" "1 \<le> (1::nat)" "(1::nat) \<le> 10000"
    "length ?buf < 4 + 1 * 30"
    by (simp_all add: le_u32_def)
  have c: "readUInt32 ?buf 0 = 1"
    by (simp add: readUInt32_header le_u32_def)
  have v: "parseWalkmesh ?buf
       = \<lparr>triangleCount = 1,
          triangles =
            [\<lparr>vertices = (\<lparr>vx = 4660, vy = 255, vz = 0\<rparr>,
                          \<lparr>vx = 0, vy = 0, vz = 0\<rparr>,
                          \<lparr>vx = 0, vy = 0, vz = 0\<rparr>),
              access = (0, 0, 0)\<rparr>]\<rparr>"
    using parseWalkmesh_count[of ?buf 1, OF h(1) c]
    by (simp add: readTriangle_def readVertex_def readInt16_eq readUInt16_eq paddedByte_def Let_def)
  from parseWalkmesh_truncated [OF h] v show ?thesis by (simp add: le_u32_def)
qed

section \<open>Gateway decoding\<close>

declare gatewayLoop.simps [simp del]

lemma gateway_slot_reads:
  assumes "i < 12" "344 \<le> length buf"
  shows "readUInt16 buf (56 + int i * 24 + 18) = le_u16 buf (56 + i * 24 + 18)"
    "readVertex buf (56 + int i * 24) = layout_vertex buf (56 + i * 24 + 0)"
    "readVertex buf (56 + int i * 24 + 6) = layout_vertex buf (56 + i * 24 + 6)"
  using readUInt16_in[of "56 + i * 24 + 18" buf] readVertex_in[of "56 + i * 24" buf]
    readVertex_in[of "56 + i * 24 + 6" buf] assms
  by (simp_all add: add.commute add.left_commute)

lemma gatewayLoop_step:
  assumes "344 \<le> length buf" "0 \<le> i" "i < 12"
  shows "gatewayLoop buf i acc
     = gatewayLoop buf (i + 1)
         (if slot_kept buf (nat i) then acc @ [layout_gateway buf (nat i)] else acc)"
proof -
  from assms have lt: "nat i < 12" and ii: "int (nat i) = i" by simp_all
  note rd = gateway_slot_reads[OF lt assms(1), unfolded ii]
  show ?thesis
    using assms(3)
    by (subst gatewayLoop.simps, simp only: rd)
      (simp add: slot_kept_def layout_gateway_def layout_vertex_def)
qed

lemma gatewayLoop_eq:
  assumes "344 \<le> length buf"
  shows "0 \<le> i \<Longrightarrow> nat (12 - i) = k \<Longrightarrow> gatewayLoop buf i acc
     = acc @ map (layout_gateway buf) (filter (slot_kept buf) [nat i..<12])"
proof (induction k arbitrary: i acc)
  case 0
  then have "\<not> i < 12" "[nat i..<12] = []" by simp_all
  then show ?case by (subst gatewayLoop.simps) simp
next
  case (Suc k)
  then have lt: "i < 12" "nat i < 12" by simp_all
  from Suc.prems have suc: "nat (i + 1) = Suc (nat i)" by simp
  have up: "[nat i..<12] = nat i # [Suc (nat i)..<12]"
    using lt(2) by (rule upt_conv_Cons)
  have "gatewayLoop buf i acc
     = gatewayLoop buf (i + 1)
         (if slot_kept buf (nat i) then acc @ [layout_gateway buf (nat i)] else acc)"
    using assms Suc.prems(1) lt(1) by (rule gatewayLoop_step)
  also have "\<dots> = (if slot_kept buf (nat i) then acc @ [layout_gateway buf (nat i)] else acc)
      @ map (layout_gateway buf) (filter (slot_kept buf) [nat (i + 1)..<12])"
    using Suc.prems by (intro Suc.IH) auto
  also have "\<dots> = acc @ map (layout_gateway buf) (filter (slot_kept buf) (nat i # [Suc (nat i)..<12]))"
    by (simp add: suc)
  finally show ?case by (simp only: up)
qed

lemma example_len: "length example_gateways = 344"
  by (simp add: example_gateways_def)

lemma upt_12: "[0..<12] = [0, 1, 2, 3, 4, 5, 6, 7, 8, 9, 10, 11::nat]"
  by code_simp

lemma example_kept: "filter (slot_kept example_gateways) [0..<12] = [0, 3]"
  unfolding upt_12
  by (simp add: slot_kept_def le_u16_def le_s16_def example_gateways_def nth_append)

text \<open>
  C8. For a buffer of at least 344 bytes, \<open>parseGateways\<close> looks at the 12 slots of 24
  bytes from offset 56 and returns, in slot order and with no gaps, the slots whose field
  identifier (unsigned 16-bit at +18) is not 0 and whose two vertices' x and y are not
  all four 0 (z is not looked at), each with its field identifier and its signed 16-bit
  coordinates (vertex 1 at +0, +2, +4, vertex 2 at +6, +8, +10). For a shorter buffer it
  returns the empty list.
\<close>

theorem parseGateways_slots:
  "parseGateways buf =
     (if length buf < 344 then []
      else map (layout_gateway buf) (filter (slot_kept buf) [0..<12]))"
proof (cases "length buf < 344")
  case True
  then show ?thesis by (simp add: parseGateways_def)
next
  case False
  then have "344 \<le> length buf" by simp
  from gatewayLoop_eq[OF this, of 0 12 "[]"] False show ?thesis
    by (simp add: parseGateways_def)
qed

theorem parseGateways_slots_witness:
  "parseGateways example_gateways =
     [\<lparr>vertex1 = \<lparr>vx = 10, vy = - 10, vz = 1\<rparr>, vertex2 = \<lparr>vx = 20, vy = 0, vz = 0\<rparr>,
       fieldId = 5\<rparr>,
      \<lparr>vertex1 = \<lparr>vx = 0, vy = 0, vz = 0\<rparr>, vertex2 = \<lparr>vx = 0, vy = - 1, vz = 0\<rparr>,
       fieldId = 258\<rparr>]"
  using parseGateways_slots [of example_gateways]
  by (simp add: example_len example_kept)
    (simp add: layout_gateway_def layout_vertex_def le_u16_def le_s16_def example_gateways_def nth_append)

section \<open>Bounding box\<close>

lemma Min_insert_min:
  assumes "finite S"
  shows "Min (insert (min a b) S) = Min (insert (a::rat) (insert b S))"
proof (cases "S = {}")
  case True
  then show ?thesis by simp
next
  case False
  with assms show ?thesis by (simp add: min.assoc)
qed

lemma Max_insert_max:
  assumes "finite S"
  shows "Max (insert (max a b) S) = Max (insert (a::rat) (insert b S))"
proof (cases "S = {}")
  case True
  then show ?thesis by simp
next
  case False
  with assms show ?thesis by (simp add: max.assoc)
qed

lemma foldl_boundsVertex_Num:
  "foldl boundsVertex (Num a, Num b, Num c, Num d, Num e, Num f) vs =
     (Num (Min (insert a (vx ` set vs))), Num (Max (insert b (vx ` set vs))),
      Num (Min (insert c (vy ` set vs))), Num (Max (insert d (vy ` set vs))),
      Num (Min (insert e (vz ` set vs))), Num (Max (insert f (vz ` set vs))))"
proof (induction vs arbitrary: a b c d e f)
  case Nil
  then show ?case by simp
next
  case (Cons v vs)
  show ?case
    by (simp add: Cons.IH Min_insert_min Max_insert_max del: Min_insert Max_insert)
qed

lemma foldl_boundsVertex_start:
  assumes "vs \<noteq> []"
  shows "foldl boundsVertex
           (PosInfinity, NegInfinity, PosInfinity, NegInfinity, PosInfinity, NegInfinity) vs =
     (Num (Min (vx ` set vs)), Num (Max (vx ` set vs)),
      Num (Min (vy ` set vs)), Num (Max (vy ` set vs)),
      Num (Min (vz ` set vs)), Num (Max (vz ` set vs)))"
proof -
  from assms obtain v ws where vs: "vs = v # ws" by (cases vs) auto
  show ?thesis
    unfolding vs by (simp add: foldl_boundsVertex_Num del: Min_insert Max_insert)
qed

lemma foldl_boundsTriangle:
  "foldl boundsTriangle acc ts = foldl boundsVertex acc (concat (map vertexList ts))"
  by (induction ts arbitrary: acc) (simp_all add: boundsTriangle_def)

lemma set_concat_vertexList:
  "set (concat (map vertexList (triangles walkmesh))) = mesh_vertices walkmesh"
  by (auto simp: mesh_vertices_def vertexList_def split: prod.splits)

lemma concat_vertexList_nonempty:
  "ts \<noteq> [] \<Longrightarrow> concat (map vertexList ts) \<noteq> []"
  by (cases ts) (auto simp: vertexList_def split: prod.splits)

text \<open>
  C9. \<open>calculateWalkmeshBounds\<close> of a walkmesh with no triangles is 0 in every min,
  max and center field. For a walkmesh with at least one triangle, the min and max of
  each axis are the least and the greatest value of that coordinate over all vertices of
  all triangles, and the center of each axis is the midpoint \<open>(min + max) / 2\<close>.
\<close>

theorem calculateWalkmeshBounds_extremes:
  "calculateWalkmeshBounds walkmesh =
     (if triangles walkmesh = [] then
        \<lparr>minX = Num 0, maxX = Num 0, minY = Num 0, maxY = Num 0, minZ = Num 0, maxZ = Num 0,
         centerX = Num 0, centerY = Num 0, centerZ = Num 0\<rparr>
      else
        \<lparr>minX = Num (Min (vx ` mesh_vertices walkmesh)),
         maxX = Num (Max (vx ` mesh_vertices walkmesh)),
         minY = Num (Min (vy ` mesh_vertices walkmesh)),
         maxY = Num (Max (vy ` mesh_vertices walkmesh)),
         minZ = Num (Min (vz ` mesh_vertices walkmesh)),
         maxZ = Num (Max (vz ` mesh_vertices walkmesh)),
         centerX = Num ((Min (vx ` mesh_vertices walkmesh) + Max (vx ` mesh_vertices walkmesh)) / 2),
         centerY = Num ((Min (vy ` mesh_vertices walkmesh) + Max (vy ` mesh_vertices walkmesh)) / 2),
         centerZ = Num ((Min (vz ` mesh_vertices walkmesh) + Max (vz ` mesh_vertices walkmesh)) / 2)\<rparr>)"
proof (cases "triangles walkmesh = []")
  case True
  then show ?thesis by (simp add: calculateWalkmeshBounds_def)
next
  case False
  then have ne: "concat (map vertexList (triangles walkmesh)) \<noteq> []"
    by (rule concat_vertexList_nonempty)
  note st = foldl_boundsVertex_start[OF ne, unfolded set_concat_vertexList]
  show ?thesis
    using False
    by (simp add: calculateWalkmeshBounds_def foldl_boundsTriangle st)
qed

theorem calculateWalkmeshBounds_extremes_witness:
  "calculateWalkmeshBounds
     \<lparr>triangleCount = 2,
      triangles =
        [\<lparr>vertices = (\<lparr>vx = - 50, vy = 0, vz = 3\<rparr>, \<lparr>vx = 10, vy = 40, vz = 3\<rparr>,
                      \<lparr>vx = 0, vy = - 7, vz = 8\<rparr>),
          access = (1, 65535, 65535)\<rparr>,
         \<lparr>vertices = (\<lparr>vx = 10, vy = 40, vz = 3\<rparr>, \<lparr>vx = 150, vy = 2, vz = - 4\<rparr>,
                      \<lparr>vx = 0, vy = - 7, vz = 8\<rparr>),
          access = (65535, 65535, 0)\<rparr>]\<rparr>
   = \<lparr>minX = Num (- 50), maxX = Num 150, minY = Num (- 7), maxY = Num 40,
      minZ = Num (- 4), maxZ = Num 8,
      centerX = Num 50, centerY = Num (33 / 2), centerZ = Num 2\<rparr>"
  using calculateWalkmeshBounds_extremes [of "\<lparr>triangleCount = 2,
      triangles =
        [\<lparr>vertices = (\<lparr>vx = - 50, vy = 0, vz = 3\<rparr>, \<lparr>vx = 10, vy = 40, vz = 3\<rparr>,
                      \<lparr>vx = 0, vy = - 7, vz = 8\<rparr>),
          access = (1, 65535, 65535)\<rparr>,
         \<lparr>vertices = (\<lparr>vx = 10, vy = 40, vz = 3\<rparr>, \<lparr>vx = 150, vy = 2, vz = - 4\<rparr>,
                      \<lparr>vx = 0, vy = - 7, vz = 8\<rparr>),
          access = (65535, 65535, 0)\<rparr>]\<rparr>"]
  by (simp add: mesh_vertices_def)

section \<open>Rounding to a double: exponent, exactness on integers, error bound\<close>

lemma powi_nat: "0 \<le> e \<Longrightarrow> (2::rat) powi e = 2 ^ nat e"
  by (simp add: power_int_def)

lemma powi_neg: "0 \<le> b \<Longrightarrow> (2::rat) powi (- b) = 1 / 2 ^ nat b"
  by (simp add: power_int_def field_simps)

lemma powi_pos: "0 < (2::rat) powi e"
  by (simp add: power_int_def)

lemma pow2_le_of_int: "2 ^ k \<le> (n::int) \<Longrightarrow> (2::rat) ^ k \<le> of_int n"
proof -
  assume "2 ^ k \<le> n"
  then have "(of_int (2 ^ k) :: rat) \<le> of_int n" by (simp only: of_int_le_iff)
  then show ?thesis by simp
qed

lemma of_int_le_pow2: "(n::int) \<le> 2 ^ k \<Longrightarrow> (of_int n :: rat) \<le> 2 ^ k"
proof -
  assume "n \<le> 2 ^ k"
  then have "(of_int n :: rat) \<le> of_int (2 ^ k)" by (simp only: of_int_le_iff)
  then show ?thesis by simp
qed

lemma bitlen_pos: "0 < n \<Longrightarrow> 1 \<le> bitlen n"
proof (rule ccontr)
  assume n: "0 < n" and "\<not> 1 \<le> bitlen n"
  then have "nat (bitlen n) = 0" by simp
  with bitlen_bounds[OF n] have "n < 1" by simp
  with n show False by simp
qed

lemma ilog2_bounds:
  assumes "q \<noteq> 0"
  shows "2 powi (ilog2 q) \<le> \<bar>q\<bar>" "\<bar>q\<bar> < 2 powi (ilog2 q + 1)"
proof -
  have "2 powi (ilog2 q) \<le> \<bar>q\<bar> \<and> \<bar>q\<bar> < 2 powi (ilog2 q + 1)"
  proof (cases "1 \<le> \<bar>q\<bar>")
    case True
    define n where "n = \<lfloor>\<bar>q\<bar>\<rfloor>"
    have n1: "1 \<le> n" using True unfolding n_def by linarith
    then have n0: "0 < n" by simp
    have e: "ilog2 q = bitlen n - 1" using True by (simp add: ilog2_def n_def)
    have b1: "1 \<le> bitlen n" using n0 by (rule bitlen_pos)
    from bitlen_bounds[OF n0] have lo: "2 ^ nat (bitlen n - 1) \<le> n" and hi: "n < 2 ^ nat (bitlen n)"
      by auto
    have "(2::rat) ^ nat (bitlen n - 1) \<le> of_int n"
      using lo by (rule pow2_le_of_int)
    also have "\<dots> \<le> \<bar>q\<bar>" unfolding n_def by linarith
    finally have 1: "2 powi (ilog2 q) \<le> \<bar>q\<bar>" using b1 by (simp add: e powi_nat)
    from hi have "n + 1 \<le> 2 ^ nat (bitlen n)" by simp
    then have "(of_int (n + 1) :: rat) \<le> 2 ^ nat (bitlen n)"
      by (rule of_int_le_pow2)
    moreover have "\<bar>q\<bar> < of_int (n + 1)" unfolding n_def by linarith
    ultimately have "\<bar>q\<bar> < 2 ^ nat (bitlen n)" by linarith
    then have 2: "\<bar>q\<bar> < 2 powi (ilog2 q + 1)" using b1 by (simp add: e powi_nat)
    from 1 2 show ?thesis by simp
  next
    case False
    then have q1: "\<bar>q\<bar> < 1" and q0: "0 < \<bar>q\<bar>" using assms by simp_all
    define m where "m = \<lceil>1 / \<bar>q\<bar>\<rceil> - 1"
    have inv: "1 < 1 / \<bar>q\<bar>" using q0 q1 by (simp add: field_simps)
    then have m1: "1 \<le> m" unfolding m_def by linarith
    then have m0: "0 < m" by simp
    have e: "ilog2 q = - bitlen m" using False by (simp add: ilog2_def m_def)
    have b1: "1 \<le> bitlen m" using m0 by (rule bitlen_pos)
    from bitlen_bounds[OF m0] have lo: "2 ^ nat (bitlen m - 1) \<le> m" and hi: "m < 2 ^ nat (bitlen m)"
      by auto
    from hi have "m + 1 \<le> 2 ^ nat (bitlen m)" by simp
    then have "(of_int (m + 1) :: rat) \<le> 2 ^ nat (bitlen m)"
      by (rule of_int_le_pow2)
    moreover have "1 / \<bar>q\<bar> \<le> of_int (m + 1)" unfolding m_def by linarith
    ultimately have "1 / \<bar>q\<bar> \<le> 2 ^ nat (bitlen m)" by linarith
    then have "1 \<le> 2 ^ nat (bitlen m) * \<bar>q\<bar>" using q0 by (simp add: field_simps)
    then have "1 / 2 ^ nat (bitlen m) \<le> \<bar>q\<bar>" by (simp add: field_simps)
    then have 1: "2 powi (ilog2 q) \<le> \<bar>q\<bar>" using b1 by (simp add: e powi_neg)
    have "(2::rat) ^ nat (bitlen m - 1) \<le> of_int m"
      using lo by (rule pow2_le_of_int)
    moreover have "of_int m < 1 / \<bar>q\<bar>" unfolding m_def by linarith
    ultimately have "(2::rat) ^ nat (bitlen m - 1) < 1 / \<bar>q\<bar>" by linarith
    then have "\<bar>q\<bar> * 2 ^ nat (bitlen m - 1) < 1" using q0 by (simp add: field_simps)
    then have "\<bar>q\<bar> < 1 / 2 ^ nat (bitlen m - 1)" by (simp add: field_simps)
    moreover have "(2::rat) powi (- bitlen m + 1) = 1 / 2 ^ nat (bitlen m - 1)"
      using powi_neg[of "bitlen m - 1"] b1 by simp
    ultimately have 2: "\<bar>q\<bar> < 2 powi (ilog2 q + 1)" by (simp add: e)
    from 1 2 show ?thesis by simp
  qed
  then show "2 powi (ilog2 q) \<le> \<bar>q\<bar>" "\<bar>q\<bar> < 2 powi (ilog2 q + 1)" by simp_all
qed

lemma roundHalfEven_err: "\<bar>of_int (roundHalfEven x) - x\<bar> \<le> 1 / 2"
proof -
  define f where "f = \<lfloor>x\<rfloor>"
  have f: "of_int f \<le> x" "x < of_int f + 1" unfolding f_def by linarith+
  consider "x - of_int f < 1 / 2" | "1 / 2 < x - of_int f" | "x - of_int f = 1 / 2" by linarith
  then show ?thesis
  proof cases
    case 1
    then have "roundHalfEven x = f" by (simp add: roundHalfEven_def f_def)
    with 1 f show ?thesis by simp
  next
    case 2
    then have "roundHalfEven x = f + 1" by (simp add: roundHalfEven_def f_def)
    with 2 f show ?thesis by simp
  next
    case 3
    then have "roundHalfEven x = f \<or> roundHalfEven x = f + 1"
      by (simp add: roundHalfEven_def f_def Let_def)
    with 3 f show ?thesis by auto
  qed
qed

lemma roundHalfEven_int: "roundHalfEven (of_int n) = n"
  by (simp add: roundHalfEven_def)


lemma ilog2_le:
  assumes "q \<noteq> 0" "\<bar>q\<bar> < 2 powi n"
  shows "ilog2 q < n"
proof (rule ccontr)
  assume "\<not> ilog2 q < n"
  then have "(2::rat) powi n \<le> 2 powi (ilog2 q)" by (intro power_int_increasing) simp_all
  with ilog2_bounds(1)[OF assms(1)] assms(2) show False by simp
qed

lemma ilog2_ge:
  assumes "q \<noteq> 0" "2 powi n \<le> \<bar>q\<bar>"
  shows "n \<le> ilog2 q"
proof (rule ccontr)
  assume "\<not> n \<le> ilog2 q"
  then have "(2::rat) powi (ilog2 q + 1) \<le> 2 powi n" by (intro power_int_increasing) simp_all
  with ilog2_bounds(2)[OF assms(1)] assms(2) show False by simp
qed

lemma dbl_int:
  assumes "\<bar>k\<bar> < 2 ^ 53"
  shows "dbl (of_int k) = Num (of_int k)"
proof (cases "k = 0")
  case True
  then show ?thesis by (simp add: dbl_def)
next
  case False
  define q :: rat where "q = of_int k"
  define e where "e = ilog2 q"
  have q0: "q \<noteq> 0" using False by (simp add: q_def)
  have "1 \<le> \<bar>k\<bar>" using False by simp
  then have "(1::rat) \<le> of_int \<bar>k\<bar>" by (simp only: of_int_1_le_iff)
  then have q1: "2 powi 0 \<le> \<bar>q\<bar>" by (simp add: q_def)
  have "(of_int \<bar>k\<bar> :: rat) < of_int (2 ^ 53)" using assms by (simp only: of_int_less_iff)
  then have q2: "\<bar>q\<bar> < 2 powi 53" by (simp add: q_def)
  have e0: "0 \<le> e" unfolding e_def using q0 q1 by (rule ilog2_ge)
  have e1: "e < 53" unfolding e_def using q0 q2 by (rule ilog2_le)
  define n where "n = nat (52 - e)"
  have mx: "max e (- 1022) = e" using e0 by simp
  have ulp: "(2::rat) powi (e - 52) = 1 / 2 ^ n"
    using e1 powi_neg[of "52 - e"] by (simp add: n_def)
  have "q / (1 / 2 ^ n) = of_int (k * 2 ^ n)" by (simp add: q_def)
  then have rhe: "roundHalfEven (q / (1 / 2 ^ n)) = k * 2 ^ n"
    by (simp only: roundHalfEven_int)
  have r: "of_int (k * 2 ^ n) * (1 / 2 ^ n) = q" by (simp add: q_def)
  have small: "\<not> 2 powi 1024 \<le> \<bar>q\<bar>"
  proof -
    have "(2::rat) powi 53 \<le> 2 powi 1024" by (intro power_int_increasing) simp_all
    with q2 show ?thesis by linarith
  qed
  have "dbl q = Num q"
    using q0 small
    by (simp only: dbl_def Let_def e_def[symmetric] mx ulp rhe r if_False)
  then show ?thesis by (simp add: q_def)
qed

lemma dbl_close:
  assumes "\<bar>q\<bar> \<le> M" "M \<le> 2 ^ 1000"
  shows "\<exists>r. dbl q = Num r \<and> \<bar>r - q\<bar> \<le> M / 2 ^ 53 + 1 / 2 ^ 1000"
proof (cases "q = 0")
  case True
  have "0 \<le> M" using assms(1) by linarith
  then have "0 \<le> M / 2 ^ 53 + 1 / 2 ^ 1000" by simp
  with True show ?thesis by (simp add: dbl_def)
next
  case False
  define e where "e = ilog2 q"
  define E where "E = max e (- 1022)"
  define ulp :: rat where "ulp = 2 powi (E - 52)"
  define r where "r = of_int (roundHalfEven (q / ulp)) * ulp"
  have up: "0 < ulp" unfolding ulp_def by (rule powi_pos)
  have "\<bar>q\<bar> < 2 powi 1001"
  proof -
    have "(2::rat) ^ 1000 < 2 powi 1001" by simp
    with assms show ?thesis by linarith
  qed
  with False have e_hi: "e < 1001" unfolding e_def by (rule ilog2_le)
  have "r - q = (of_int (roundHalfEven (q / ulp)) - q / ulp) * ulp"
    using up by (simp add: r_def algebra_simps)
  then have "\<bar>r - q\<bar> = \<bar>of_int (roundHalfEven (q / ulp)) - q / ulp\<bar> * ulp"
    using up by (simp add: abs_mult)
  also have "\<dots> \<le> 1 / 2 * ulp"
    using up roundHalfEven_err[of "q / ulp"] by (intro mult_right_mono) simp_all
  finally have err: "\<bar>r - q\<bar> \<le> ulp / 2" by simp
  have half: "ulp / 2 = 2 powi (E - 53)"
    using power_int_diff[of "2::rat" "E - 52" 1] by (simp add: ulp_def)
  have bound: "ulp / 2 \<le> M / 2 ^ 53 + 1 / 2 ^ 1000"
  proof (cases "- 1022 \<le> e")
    case True
    then have "E = e" by (simp add: E_def)
    then have "ulp / 2 = 2 powi e / 2 ^ 53"
      using power_int_diff[of "2::rat" e 53] by (simp add: half)
    also have "\<dots> \<le> \<bar>q\<bar> / 2 ^ 53"
      using ilog2_bounds(1)[OF False] by (simp add: e_def divide_right_mono)
    also have "\<dots> \<le> M / 2 ^ 53" using assms(1) by (simp add: divide_right_mono)
    finally show ?thesis by simp
  next
    case False
    then have "E = - 1022" by (simp add: E_def)
    then have "ulp / 2 = 2 powi (- 1075)" by (simp add: half)
    also have "\<dots> \<le> 2 powi (- 1000)" by (intro power_int_increasing) simp_all
    also have "\<dots> = 1 / 2 ^ 1000" using powi_neg[of 1000] by simp
    finally have "ulp / 2 \<le> 1 / 2 ^ 1000" .
    moreover have "0 \<le> M / 2 ^ 53" using assms(1) by simp
    ultimately show ?thesis by linarith
  qed
  define B :: rat where "B = 2 powi 1000"
  have MB: "M \<le> B" using assms(2) by (simp add: B_def)
  have "ulp / 2 \<le> B"
  proof -
    have "ulp / 2 = 2 powi (E - 53)" by (rule half)
    also have "\<dots> \<le> 2 powi 1000" using e_hi by (intro power_int_increasing) (simp_all add: E_def)
    finally show ?thesis by (simp only: B_def)
  qed
  then have rB: "\<bar>r\<bar> \<le> B + B" using err assms(1) MB by linarith
  have "B + B = 2 powi 1001"
    using power_int_add[of "2::rat" 1000 1] by (simp add: B_def)
  also have "\<dots> < 2 powi 1024" by (intro power_int_strict_increasing) simp_all
  finally have "B + B < 2 powi 1024" .
  with rB have small: "\<not> 2 powi 1024 \<le> \<bar>r\<bar>" by linarith
  have "dbl q = Num r"
    using \<open>q \<noteq> 0\<close> small
    by (simp only: dbl_def Let_def e_def[symmetric] E_def[symmetric] ulp_def[symmetric]
        r_def[symmetric] if_False)
  with err bound show ?thesis by (intro exI[of _ r]) simp
qed

lemma ilog2_unique:
  assumes "q \<noteq> 0" "2 powi e \<le> \<bar>q\<bar>" "\<bar>q\<bar> < 2 powi (e + 1)"
  shows "ilog2 q = e"
proof -
  have "e \<le> ilog2 q" using assms(1,2) by (rule ilog2_ge)
  moreover have "ilog2 q < e + 1" using assms(1,3) by (rule ilog2_le)
  ultimately show ?thesis by simp
qed

lemma roundHalfEven_near:
  assumes "\<bar>x - of_int m\<bar> < 1 / 2"
  shows "roundHalfEven x = m"
proof -
  have "\<bar>of_int (roundHalfEven x) - x\<bar> \<le> 1 / 2" by (rule roundHalfEven_err)
  with assms have "\<bar>(of_int (roundHalfEven x) :: rat) - of_int m\<bar> < 1" by linarith
  then have "\<bar>(of_int (roundHalfEven x - m) :: rat)\<bar> < 1" by simp
  then have "\<bar>roundHalfEven x - m\<bar> < 1"
    by (metis of_int_abs of_int_less_1_iff)
  then show ?thesis by simp
qed

lemma roundHalfEven_tie:
  assumes "x = of_int f + 1 / 2"
  shows "roundHalfEven x = (if even f then f else f + 1)"
proof -
  have "\<lfloor>x\<rfloor> = f" unfolding assms by linarith
  then show ?thesis by (simp add: roundHalfEven_def Let_def assms)
qed

lemma dbl_eqI:
  assumes q: "q \<noteq> 0" and lo: "2 powi e \<le> \<bar>q\<bar>" and hi: "\<bar>q\<bar> < 2 powi (e + 1)"
    and e: "- 1022 \<le> e" "e < 1023"
    and m: "roundHalfEven (q / 2 powi (e - 52)) = m"
  shows "dbl q = Num (of_int m * 2 powi (e - 52))"
proof -
  define ulp :: rat where "ulp = 2 powi (e - 52)"
  define r where "r = of_int m * ulp"
  have up: "0 < ulp" unfolding ulp_def by (rule powi_pos)
  have il: "ilog2 q = e" using q lo hi by (rule ilog2_unique)
  have mx: "max e (- 1022) = e" using e by simp
  have "\<bar>of_int m - q / ulp\<bar> \<le> 1 / 2"
    using roundHalfEven_err[of "q / ulp"] m by (simp add: ulp_def)
  then have "\<bar>of_int m - q / ulp\<bar> * ulp \<le> 1 / 2 * ulp"
    using up by (intro mult_right_mono) simp_all
  moreover have "r - q = (of_int m - q / ulp) * ulp" using up by (simp add: r_def algebra_simps)
  ultimately have err: "\<bar>r - q\<bar> \<le> ulp / 2" using up by (simp add: abs_mult)
  have u2: "ulp / 2 = 2 powi (e - 53)"
    using power_int_diff[of "2::rat" "e - 52" 1] by (simp add: ulp_def)
  have "(2::rat) powi (e - 53) \<le> 2 powi (e + 1)" by (intro power_int_increasing) simp_all
  with u2 err hi have "\<bar>r\<bar> < 2 powi (e + 1) + 2 powi (e + 1)" by linarith
  also have "\<dots> = 2 powi (e + 2)"
    using power_int_add[of "2::rat" "e + 1" 1] by (simp add: ac_simps)
  also have "\<dots> \<le> 2 powi 1024" using e by (intro power_int_increasing) simp_all
  finally have small: "\<not> 2 powi 1024 \<le> \<bar>r\<bar>" by simp
  have "dbl q = Num r"
    using q small m
    by (simp only: dbl_def Let_def il mx ulp_def[symmetric] r_def[symmetric] if_False)
  then show ?thesis by (simp add: r_def ulp_def)
qed

lemma dbl_zero: "dbl 0 = Num 0"
  by (simp add: dbl_def)

section \<open>The search loop\<close>

declare findLoop.simps [simp del]

lemma findLoop_hit:
  assumes "i < length ts" "containsPoint (ts ! i) x y"
  shows "k \<le> i \<Longrightarrow> i - k = d \<Longrightarrow> (\<forall>j. k \<le> j \<and> j < i \<longrightarrow> \<not> containsPoint (ts ! j) x y) \<Longrightarrow>
     findLoop ts x y k = \<lparr>triangleId = int i, tz = Math_round (calculateZAtPoint x y (ts ! i))\<rparr>"
proof (induction d arbitrary: k)
  case 0
  then have "k = i" by simp
  with assms show ?case by (subst findLoop.simps) simp
next
  case (Suc d)
  then have k: "k < i" "k < length ts" "\<not> containsPoint (ts ! k) x y"
    using assms(1) by auto
  have "findLoop ts x y k = findLoop ts x y (k + 1)"
    using k by (subst findLoop.simps) simp
  also have "\<dots> = \<lparr>triangleId = int i, tz = Math_round (calculateZAtPoint x y (ts ! i))\<rparr>"
    using Suc.prems k by (intro Suc.IH) auto
  finally show ?case .
qed

lemma findLoop_miss:
  "length ts - k = d \<Longrightarrow> (\<forall>j. k \<le> j \<and> j < length ts \<longrightarrow> \<not> containsPoint (ts ! j) x y) \<Longrightarrow>
     findLoop ts x y k = \<lparr>triangleId = - 1, tz = Num 0\<rparr>"
proof (induction d arbitrary: k)
  case 0
  then have "\<not> k < length ts" by simp
  then show ?case by (subst findLoop.simps) simp
next
  case (Suc d)
  then have k: "k < length ts" "\<not> containsPoint (ts ! k) x y" by auto
  have "findLoop ts x y k = findLoop ts x y (k + 1)"
    using k by (subst findLoop.simps) simp
  also have "\<dots> = \<lparr>triangleId = - 1, tz = Num 0\<rparr>"
    using Suc.prems by (intro Suc.IH) auto
  finally show ?case .
qed

section \<open>The example mesh, evaluated in doubles\<close>

lemma example_mesh_dbl_int:
  "dbl (- 4625) = Num (- 4625)"
  "dbl (- 2625) = Num (- 2625)"
  "dbl (- 2000) = Num (- 2000)"
  "dbl (- 1900) = Num (- 1900)"
  "dbl (- 1000) = Num (- 1000)"
  "dbl (- 900) = Num (- 900)"
  "dbl (- 425) = Num (- 425)"
  "dbl (- 150) = Num (- 150)"
  "dbl (- 120) = Num (- 120)"
  "dbl (- 25) = Num (- 25)"
  "dbl (- 20) = Num (- 20)"
  "dbl (- 19) = Num (- 19)"
  "dbl (- 10) = Num (- 10)"
  "dbl (- 9) = Num (- 9)"
  "dbl 1 = Num 1"
  "dbl 6 = Num 6"
  "dbl 10 = Num 10"
  "dbl 12 = Num 12"
  "dbl 17 = Num 17"
  "dbl 25 = Num 25"
  "dbl 75 = Num 75"
  "dbl 80 = Num 80"
  "dbl 90 = Num 90"
  "dbl 100 = Num 100"
  "dbl 105 = Num 105"
  "dbl 120 = Num 120"
  "dbl 150 = Num 150"
  "dbl 325 = Num 325"
  "dbl 425 = Num 425"
  "dbl 475 = Num 475"
  "dbl 500 = Num 500"
  "dbl 625 = Num 625"
  "dbl 1000 = Num 1000"
  "dbl 2625 = Num 2625"
  using dbl_int[of "- 4625"] dbl_int[of "- 2625"] dbl_int[of "- 2000"] dbl_int[of "- 1900"] dbl_int[of "- 1000"] dbl_int[of "- 900"] dbl_int[of "- 425"] dbl_int[of "- 150"] dbl_int[of "- 120"] dbl_int[of "- 25"] dbl_int[of "- 20"] dbl_int[of "- 19"] dbl_int[of "- 10"] dbl_int[of "- 9"] dbl_int[of "1"] dbl_int[of "6"] dbl_int[of "10"] dbl_int[of "12"] dbl_int[of "17"] dbl_int[of "25"] dbl_int[of "75"] dbl_int[of "80"] dbl_int[of "90"] dbl_int[of "100"] dbl_int[of "105"] dbl_int[of "120"] dbl_int[of "150"] dbl_int[of "325"] dbl_int[of "425"] dbl_int[of "475"] dbl_int[of "500"] dbl_int[of "625"] dbl_int[of "1000"] dbl_int[of "2625"]
  by simp_all

lemma example_mesh_dbl_1: "dbl (1 / 10000) = Num (7378697629483821 / 73786976294838206464)"
proof -
  have "roundHalfEven ((1 / 10000) / 2 powi ((- 14) - 52)) = 7378697629483821"
    by (rule roundHalfEven_near) simp
  then have "dbl (1 / 10000) = Num (of_int 7378697629483821 * 2 powi ((- 14) - 52))"
    by (intro dbl_eqI) simp_all
  then show ?thesis by simp
qed

lemma example_mesh_dbl_2: "dbl (3602879701896395 / 36028797018963968) = Num (3602879701896395 / 36028797018963968)"
proof -
  have "roundHalfEven ((3602879701896395 / 36028797018963968) / 2 powi ((- 4) - 52)) = 7205759403792790"
    by (rule roundHalfEven_near) simp
  then have "dbl (3602879701896395 / 36028797018963968) = Num (of_int 7205759403792790 * 2 powi ((- 4) - 52))"
    by (intro dbl_eqI) simp_all
  then show ?thesis by simp
qed

lemma example_mesh_dbl_3: "dbl (1 / 10) = Num (3602879701896397 / 36028797018963968)"
proof -
  have "roundHalfEven ((1 / 10) / 2 powi ((- 4) - 52)) = 7205759403792794"
    by (rule roundHalfEven_near) simp
  then have "dbl (1 / 10) = Num (of_int 7205759403792794 * 2 powi ((- 4) - 52))"
    by (intro dbl_eqI) simp_all
  then show ?thesis by simp
qed

lemma example_mesh_dbl_4: "dbl (3 / 25) = Num (1080863910568919 / 9007199254740992)"
proof -
  have "roundHalfEven ((3 / 25) / 2 powi ((- 4) - 52)) = 8646911284551352"
    by (rule roundHalfEven_near) simp
  then have "dbl (3 / 25) = Num (of_int 8646911284551352 * 2 powi ((- 4) - 52))"
    by (intro dbl_eqI) simp_all
  then show ?thesis by simp
qed

lemma example_mesh_dbl_5: "dbl (900719925474099 / 4503599627370496) = Num (900719925474099 / 4503599627370496)"
proof -
  have "roundHalfEven ((900719925474099 / 4503599627370496) / 2 powi ((- 3) - 52)) = 7205759403792792"
    by (rule roundHalfEven_near) simp
  then have "dbl (900719925474099 / 4503599627370496) = Num (of_int 7205759403792792 * 2 powi ((- 3) - 52))"
    by (intro dbl_eqI) simp_all
  then show ?thesis by simp
qed

lemma example_mesh_dbl_6: "dbl (17 / 25) = Num (6124895493223875 / 9007199254740992)"
proof -
  have "roundHalfEven ((17 / 25) / 2 powi ((- 1) - 52)) = 6124895493223875"
    by (rule roundHalfEven_near) simp
  then have "dbl (17 / 25) = Num (of_int 6124895493223875 * 2 powi ((- 1) - 52))"
    by (intro dbl_eqI) simp_all
  then show ?thesis by simp
qed

lemma example_mesh_dbl_7: "dbl (4 / 5) = Num (3602879701896397 / 4503599627370496)"
proof -
  have "roundHalfEven ((4 / 5) / 2 powi ((- 1) - 52)) = 7205759403792794"
    by (rule roundHalfEven_near) simp
  then have "dbl (4 / 5) = Num (of_int 7205759403792794 * 2 powi ((- 1) - 52))"
    by (intro dbl_eqI) simp_all
  then show ?thesis by simp
qed

lemma example_mesh_dbl_8: "dbl (7566047373982433 / 9007199254740992) = Num (7566047373982433 / 9007199254740992)"
proof -
  have "roundHalfEven ((7566047373982433 / 9007199254740992) / 2 powi ((- 1) - 52)) = 7566047373982433"
    by (rule roundHalfEven_near) simp
  then have "dbl (7566047373982433 / 9007199254740992) = Num (of_int 7566047373982433 * 2 powi ((- 1) - 52))"
    by (intro dbl_eqI) simp_all
  then show ?thesis by simp
qed

lemma example_mesh_dbl_9: "dbl (7926335344172073 / 9007199254740992) = Num (7926335344172073 / 9007199254740992)"
proof -
  have "roundHalfEven ((7926335344172073 / 9007199254740992) / 2 powi ((- 1) - 52)) = 7926335344172073"
    by (rule roundHalfEven_near) simp
  then have "dbl (7926335344172073 / 9007199254740992) = Num (of_int 7926335344172073 * 2 powi ((- 1) - 52))"
    by (intro dbl_eqI) simp_all
  then show ?thesis by simp
qed

lemma example_mesh_dbl_10: "dbl (6305039478318693 / 4503599627370496) = Num (6305039478318693 / 4503599627370496)"
proof -
  have "roundHalfEven ((6305039478318693 / 4503599627370496) / 2 powi (0 - 52)) = 6305039478318693"
    by (rule roundHalfEven_near) simp
  then have "dbl (6305039478318693 / 4503599627370496) = Num (of_int 6305039478318693 * 2 powi (0 - 52))"
    by (intro dbl_eqI) simp_all
  then show ?thesis by simp
qed

lemma example_mesh_dbl_11: "dbl (54043195528445925 / 18014398509481984) = Num (6755399441055741 / 2251799813685248)"
proof -
  have "roundHalfEven ((54043195528445925 / 18014398509481984) / 2 powi (1 - 52)) = 6755399441055741"
    by (rule roundHalfEven_near) simp
  then have "dbl (54043195528445925 / 18014398509481984) = Num (of_int 6755399441055741 * 2 powi (1 - 52))"
    by (intro dbl_eqI) simp_all
  then show ?thesis by simp
qed

lemma example_mesh_dbl_12: "dbl (6755399441055741 / 2251799813685248) = Num (6755399441055741 / 2251799813685248)"
proof -
  have "roundHalfEven ((6755399441055741 / 2251799813685248) / 2 powi (1 - 52)) = 6755399441055741"
    by (rule roundHalfEven_near) simp
  then have "dbl (6755399441055741 / 2251799813685248) = Num (of_int 6755399441055741 * 2 powi (1 - 52))"
    by (intro dbl_eqI) simp_all
  then show ?thesis by simp
qed

lemma example_mesh_dbl_13: "dbl (42874268452567125 / 9007199254740992) = Num (5359283556570891 / 1125899906842624)"
proof -
  have "roundHalfEven ((42874268452567125 / 9007199254740992) / 2 powi (2 - 52)) = 5359283556570891"
    by (rule roundHalfEven_near) simp
  then have "dbl (42874268452567125 / 9007199254740992) = Num (of_int 5359283556570891 * 2 powi (2 - 52))"
    by (intro dbl_eqI) simp_all
  then show ?thesis by simp
qed

lemma example_mesh_dbl_14: "dbl (50440315826549561 / 9007199254740992) = Num (6305039478318695 / 1125899906842624)"
proof -
  have "roundHalfEven ((50440315826549561 / 9007199254740992) / 2 powi (2 - 52)) = 6305039478318695"
    by (rule roundHalfEven_near) simp
  then have "dbl (50440315826549561 / 9007199254740992) = Num (of_int 6305039478318695 * 2 powi (2 - 52))"
    by (intro dbl_eqI) simp_all
  then show ?thesis by simp
qed

lemma example_mesh_dbl_15: "dbl (31525197391593473 / 4503599627370496) = Num 7"
proof -
  have "roundHalfEven ((31525197391593473 / 4503599627370496) / 2 powi (2 - 52)) = 7881299347898368"
    by (rule roundHalfEven_near) simp
  then have "dbl (31525197391593473 / 4503599627370496) = Num (of_int 7881299347898368 * 2 powi (2 - 52))"
    by (intro dbl_eqI) simp_all
  then show ?thesis by simp
qed

lemmas example_mesh_dbl = example_mesh_dbl_int example_mesh_dbl_1 example_mesh_dbl_2 example_mesh_dbl_3 example_mesh_dbl_4 example_mesh_dbl_5 example_mesh_dbl_6 example_mesh_dbl_7 example_mesh_dbl_8 example_mesh_dbl_9 example_mesh_dbl_10 example_mesh_dbl_11 example_mesh_dbl_12 example_mesh_dbl_13 example_mesh_dbl_14 example_mesh_dbl_15

lemma example_mesh_contains:
  "containsPoint (triangles example_mesh ! 0) (Num 1) (Num 1)"
  "containsPoint (triangles example_mesh ! 1) (Num 1) (Num 1)"
  "\<not> containsPoint (triangles example_mesh ! 0) (Num 12) (Num 0)"
  "containsPoint (triangles example_mesh ! 1) (Num 12) (Num 0)"
  "\<not> containsPoint (triangles example_mesh ! 0) (Num 100) (Num 100)"
  "\<not> containsPoint (triangles example_mesh ! 1) (Num 100) (Num 100)"
  by (simp_all add: example_mesh_def example_triangle_def containsPoint_def pointInTriangle_def
      d_sub_def dbl_zero example_mesh_dbl)

lemma example_mesh_elevation:
  "calculateZAtPoint (Num 1) (Num 1) (triangles example_mesh ! 0)
     = Num (6755399441055741 / 2251799813685248)"
  "calculateZAtPoint (Num 12) (Num 0) (triangles example_mesh ! 1) = Num 7"
  by (simp_all add: example_mesh_def example_triangle_def calculateZAtPoint_def
      d_sub_def dbl_zero example_mesh_dbl)

lemma example_mesh_rounded:
  "Math_round (calculateZAtPoint (Num 1) (Num 1) (triangles example_mesh ! 0)) = Num 3"
  "Math_round (calculateZAtPoint (Num 12) (Num 0) (triangles example_mesh ! 1)) = Num 7"
proof -
  have "\<lfloor>(6755399441055741 / 2251799813685248 :: rat) + 1 / 2\<rfloor> = 3" by linarith
  then show "Math_round (calculateZAtPoint (Num 1) (Num 1) (triangles example_mesh ! 0)) = Num 3"
    by (simp only: example_mesh_elevation Math_round.simps) simp
  have "\<lfloor>(7 :: rat) + 1 / 2\<rfloor> = 7" by linarith
  then show "Math_round (calculateZAtPoint (Num 12) (Num 0) (triangles example_mesh ! 1)) = Num 7"
    by (simp only: example_mesh_elevation Math_round.simps) simp
qed

section \<open>The containment test: exact on integers, and the closed triangle\<close>

lemma pointInTriangle_exact_sound:
  assumes D: "twice_signed_area v0x v0y v1x v1y v2x v2y \<noteq> 0"
    and pit: "pointInTriangle_exact px py v0x v0y v1x v1y v2x v2y"
  shows "in_closed_triangle px py v0x v0y v1x v1y v2x v2y"
proof -
  define D where "D = (v1y - v2y) * (v0x - v2x) + (v2x - v1x) * (v0y - v2y)"
  define s where "s = (v1y - v2y) * (px - v2x) + (v2x - v1x) * (py - v2y)"
  define t where "t = (v2y - v0y) * (px - v2x) + (v0x - v2x) * (py - v2y)"
  have Da: "D = twice_signed_area v0x v0y v1x v1y v2x v2y"
    by (simp add: D_def twice_signed_area_def algebra_simps)
  with assms(1) have D0: "D \<noteq> 0" by simp
  have code: "if D < 0 then s \<le> 0 \<and> t \<le> 0 \<and> s + t \<ge> D else s \<ge> 0 \<and> t \<ge> 0 \<and> s + t \<le> D"
    using pit by (simp add: pointInTriangle_exact_def Let_def D_def s_def t_def)
  have ex: "D * (px - v2x) = s * (v0x - v2x) + t * (v1x - v2x)"
    by (simp add: D_def s_def t_def algebra_simps)
  have ey: "D * (py - v2y) = s * (v0y - v2y) + t * (v1y - v2y)"
    by (simp add: D_def s_def t_def algebra_simps)
  define a where "a = s / D"
  define b where "b = t / D"
  define c where "c = 1 - a - b"
  have a: "0 \<le> a"
    using code D0 unfolding a_def
    by (auto simp: divide_nonneg_nonneg divide_nonpos_nonpos split: if_splits)
  have b: "0 \<le> b"
    using code D0 unfolding b_def
    by (auto simp: divide_nonneg_nonneg divide_nonpos_nonpos split: if_splits)
  have "(s + t) / D \<le> 1"
  proof (cases "D < 0")
    case True
    with code show ?thesis by (simp add: divide_le_eq)
  next
    case False
    with D0 have "0 < D" by simp
    with code False show ?thesis by (simp add: divide_le_eq)
  qed
  then have c: "0 \<le> c" by (simp add: c_def a_def b_def add_divide_distrib)
  have "px - v2x = (D * (px - v2x)) / D" using D0 by simp
  also have "\<dots> = (s * (v0x - v2x) + t * (v1x - v2x)) / D" by (simp only: ex)
  finally have "px - v2x = a * (v0x - v2x) + b * (v1x - v2x)"
    by (simp add: a_def b_def add_divide_distrib)
  then have x: "px = a * v0x + b * v1x + c * v2x" by (simp add: c_def algebra_simps)
  have "py - v2y = (D * (py - v2y)) / D" using D0 by simp
  also have "\<dots> = (s * (v0y - v2y) + t * (v1y - v2y)) / D" by (simp only: ey)
  finally have "py - v2y = a * (v0y - v2y) + b * (v1y - v2y)"
    by (simp add: a_def b_def add_divide_distrib)
  then have y: "py = a * v0y + b * v1y + c * v2y" by (simp add: c_def algebra_simps)
  have "a + b + c = 1" by (simp add: c_def)
  with a b c x y show ?thesis unfolding in_closed_triangle_def by blast
qed

lemma pointInTriangle_exact_complete:
  assumes a: "0 \<le> a" and b: "0 \<le> b" and c: "0 \<le> c" and sum: "a + b + c = 1"
    and px: "px = a * v0x + b * v1x + c * v2x"
    and py: "py = a * v0y + b * v1y + c * v2y"
  shows "pointInTriangle_exact px py v0x v0y v1x v1y v2x v2y"
proof -
  define D where "D = (v1y - v2y) * (v0x - v2x) + (v2x - v1x) * (v0y - v2y)"
  define s where "s = (v1y - v2y) * (px - v2x) + (v2x - v1x) * (py - v2y)"
  define t where "t = (v2y - v0y) * (px - v2x) + (v0x - v2x) * (py - v2y)"
  have cc: "c = 1 - a - b" using sum by simp
  have s: "s = a * D" by (simp add: s_def D_def px py cc algebra_simps)
  have t: "t = b * D" by (simp add: t_def D_def px py cc algebra_simps)
  have st: "s + t = a * D + b * D" by (simp add: s t)
  have ab: "a + b \<le> 1" using c cc by simp
  have "if D < 0 then s \<le> 0 \<and> t \<le> 0 \<and> s + t \<ge> D else s \<ge> 0 \<and> t \<ge> 0 \<and> s + t \<le> D"
  proof (cases "D < 0")
    case True
    then have "a * D \<le> 0" "b * D \<le> 0" using a b by (simp_all add: mult_nonneg_nonpos)
    moreover have "1 * D \<le> (a + b) * D" using ab True by (intro mult_right_mono_neg) simp_all
    then have "D \<le> a * D + b * D" by (simp add: algebra_simps)
    ultimately show ?thesis using True by (simp add: s t st)
  next
    case False
    then have "0 \<le> a * D" "0 \<le> b * D" using a b by simp_all
    moreover have "(a + b) * D \<le> 1 * D" using ab False by (intro mult_right_mono) simp_all
    then have "a * D + b * D \<le> D" by (simp add: algebra_simps)
    ultimately show ?thesis using False by (simp add: s t st)
  qed
  then show ?thesis
    unfolding pointInTriangle_exact_def Let_def D_def s_def t_def .
qed


lemma d_add_int:
  "\<bar>a + b\<bar> < 2 ^ 53 \<Longrightarrow> d_add (Num (of_int a)) (Num (of_int b)) = Num (of_int (a + b))"
  using dbl_int[of "a + b"] by simp

lemma d_sub_int:
  "\<bar>a - b\<bar> < 2 ^ 53 \<Longrightarrow> d_sub (Num (of_int a)) (Num (of_int b)) = Num (of_int (a - b))"
  using dbl_int[of "a - b"] by (simp add: d_sub_def)

lemma d_mul_int:
  "\<bar>a * b\<bar> < 2 ^ 53 \<Longrightarrow> d_mul (Num (of_int a)) (Num (of_int b)) = Num (of_int (a * b))"
  using dbl_int[of "a * b"] by simp

lemma abs_mult_bound:
  fixes a b :: int
  assumes "\<bar>a\<bar> \<le> A" "\<bar>b\<bar> \<le> B"
  shows "\<bar>a * b\<bar> \<le> A * B"
proof -
  have "\<bar>a * b\<bar> = \<bar>a\<bar> * \<bar>b\<bar>" by (rule abs_mult)
  also have "\<dots> \<le> A * B" using assms by (intro mult_mono) simp_all
  finally show ?thesis .
qed

lemma pointInTriangle_int:
  fixes px py v0x v0y v1x v1y v2x v2y :: int
  assumes b: "\<bar>px\<bar> \<le> 2 ^ 24" "\<bar>py\<bar> \<le> 2 ^ 24" "\<bar>v0x\<bar> \<le> 2 ^ 24" "\<bar>v0y\<bar> \<le> 2 ^ 24"
    "\<bar>v1x\<bar> \<le> 2 ^ 24" "\<bar>v1y\<bar> \<le> 2 ^ 24" "\<bar>v2x\<bar> \<le> 2 ^ 24" "\<bar>v2y\<bar> \<le> 2 ^ 24"
  shows "pointInTriangle (Num (of_int px)) (Num (of_int py)) (Num (of_int v0x)) (Num (of_int v0y))
           (Num (of_int v1x)) (Num (of_int v1y)) (Num (of_int v2x)) (Num (of_int v2y))
         = pointInTriangle_exact (of_int px) (of_int py) (of_int v0x) (of_int v0y)
           (of_int v1x) (of_int v1y) (of_int v2x) (of_int v2y)"
proof -
  define dX where "dX = px - v2x"
  define dY where "dY = py - v2y"
  define dX21 where "dX21 = v2x - v1x"
  define dY12 where "dY12 = v1y - v2y"
  define e0x where "e0x = v0x - v2x"
  define e0y where "e0y = v0y - v2y"
  define f0y where "f0y = v2y - v0y"
  define D where "D = dY12 * e0x + dX21 * e0y"
  define s where "s = dY12 * dX + dX21 * dY"
  define t where "t = f0y * dX + e0x * dY"
  have d: "\<bar>dX\<bar> \<le> 2 ^ 25" "\<bar>dY\<bar> \<le> 2 ^ 25" "\<bar>dX21\<bar> \<le> 2 ^ 25" "\<bar>dY12\<bar> \<le> 2 ^ 25"
    "\<bar>e0x\<bar> \<le> 2 ^ 25" "\<bar>e0y\<bar> \<le> 2 ^ 25" "\<bar>f0y\<bar> \<le> 2 ^ 25"
    using b unfolding dX_def dY_def dX21_def dY12_def e0x_def e0y_def f0y_def by simp_all
  have p: "\<bar>dY12 * e0x\<bar> \<le> 2 ^ 50" "\<bar>dX21 * e0y\<bar> \<le> 2 ^ 50" "\<bar>dY12 * dX\<bar> \<le> 2 ^ 50"
    "\<bar>dX21 * dY\<bar> \<le> 2 ^ 50" "\<bar>f0y * dX\<bar> \<le> 2 ^ 50" "\<bar>e0x * dY\<bar> \<le> 2 ^ 50"
    using abs_mult_bound[OF d(4) d(5)] abs_mult_bound[OF d(3) d(6)] abs_mult_bound[OF d(4) d(1)]
      abs_mult_bound[OF d(3) d(2)] abs_mult_bound[OF d(7) d(1)] abs_mult_bound[OF d(5) d(2)]
    by simp_all
  have q: "\<bar>D\<bar> \<le> 2 ^ 51" "\<bar>s\<bar> \<le> 2 ^ 51" "\<bar>t\<bar> \<le> 2 ^ 51"
    using p unfolding D_def s_def t_def by simp_all
  have st: "\<bar>s + t\<bar> \<le> 2 ^ 52" using q by simp
  have sub: "d_sub (Num (of_int px)) (Num (of_int v2x)) = Num (of_int dX)"
    "d_sub (Num (of_int py)) (Num (of_int v2y)) = Num (of_int dY)"
    "d_sub (Num (of_int v2x)) (Num (of_int v1x)) = Num (of_int dX21)"
    "d_sub (Num (of_int v1y)) (Num (of_int v2y)) = Num (of_int dY12)"
    "d_sub (Num (of_int v0x)) (Num (of_int v2x)) = Num (of_int e0x)"
    "d_sub (Num (of_int v0y)) (Num (of_int v2y)) = Num (of_int e0y)"
    "d_sub (Num (of_int v2y)) (Num (of_int v0y)) = Num (of_int f0y)"
    unfolding dX_def dY_def dX21_def dY12_def e0x_def e0y_def f0y_def
    using d[unfolded dX_def dY_def dX21_def dY12_def e0x_def e0y_def f0y_def]
    by (simp_all add: d_sub_int)
  have mul: "d_mul (Num (of_int dY12)) (Num (of_int e0x)) = Num (of_int (dY12 * e0x))"
    "d_mul (Num (of_int dX21)) (Num (of_int e0y)) = Num (of_int (dX21 * e0y))"
    "d_mul (Num (of_int dY12)) (Num (of_int dX)) = Num (of_int (dY12 * dX))"
    "d_mul (Num (of_int dX21)) (Num (of_int dY)) = Num (of_int (dX21 * dY))"
    "d_mul (Num (of_int f0y)) (Num (of_int dX)) = Num (of_int (f0y * dX))"
    "d_mul (Num (of_int e0x)) (Num (of_int dY)) = Num (of_int (e0x * dY))"
    by (rule d_mul_int, use p in simp)+
  have add: "d_add (Num (of_int (dY12 * e0x))) (Num (of_int (dX21 * e0y))) = Num (of_int D)"
    "d_add (Num (of_int (dY12 * dX))) (Num (of_int (dX21 * dY))) = Num (of_int s)"
    "d_add (Num (of_int (f0y * dX))) (Num (of_int (e0x * dY))) = Num (of_int t)"
    unfolding D_def s_def t_def
    by (rule d_add_int, use q[unfolded D_def s_def t_def] in simp)+
  have addst: "d_add (Num (of_int s)) (Num (of_int t)) = Num (of_int (s + t))"
    by (rule d_add_int, use st in simp)
  have lhs: "pointInTriangle (Num (of_int px)) (Num (of_int py)) (Num (of_int v0x)) (Num (of_int v0y))
           (Num (of_int v1x)) (Num (of_int v1y)) (Num (of_int v2x)) (Num (of_int v2y))
      = (if D < 0 then s \<le> 0 \<and> t \<le> 0 \<and> D \<le> s + t else 0 \<le> s \<and> 0 \<le> t \<and> s + t \<le> D)"
    by (simp only: pointInTriangle_def Let_def sub mul add addst) (simp flip: of_int_add)
  have rhs: "pointInTriangle_exact (of_int px) (of_int py) (of_int v0x) (of_int v0y)
           (of_int v1x) (of_int v1y) (of_int v2x) (of_int v2y)
      = (if (of_int D :: rat) < 0 then (of_int s :: rat) \<le> 0 \<and> (of_int t :: rat) \<le> 0
            \<and> (of_int D :: rat) \<le> of_int s + of_int t
         else (0 :: rat) \<le> of_int s \<and> (0 :: rat) \<le> of_int t \<and> (of_int s + of_int t :: rat) \<le> of_int D)"
    unfolding pointInTriangle_exact_def Let_def D_def s_def t_def dX_def dY_def dX21_def dY12_def
      e0x_def e0y_def f0y_def
    by simp
  have "(of_int s + of_int t :: rat) = of_int (s + t)" by simp
  then show ?thesis unfolding lhs rhs by (simp only: of_int_less_iff of_int_le_iff of_int_0_le_iff
        of_int_le_0_iff of_int_less_0_iff) 
qed

section \<open>Two query points with fractional coordinates\<close>

lemma edge_dbl_int:
  "dbl (- 10) = Num (- 10)"
  "dbl (- 7) = Num (- 7)"
  "dbl (- 3) = Num (- 3)"
  "dbl 7 = Num 7"
  "dbl 10 = Num 10"
  "dbl 21 = Num 21"
  "dbl 100 = Num 100"
  using dbl_int[of "- 10"] dbl_int[of "- 7"] dbl_int[of "- 3"] dbl_int[of "7"] dbl_int[of "10"] dbl_int[of "21"] dbl_int[of "100"]
  by simp_all

lemma edge_dbl_1: "dbl (- (23456248059221335 / 281474976710656)) = Num (- (2932031007402667 / 35184372088832))"
proof -
  have "roundHalfEven ((- (23456248059221335 / 281474976710656)) / 2 powi (6 - 52)) = (- 5864062014805334)"
    by (rule roundHalfEven_near) simp
  then have "dbl (- (23456248059221335 / 281474976710656)) = Num (of_int (- 5864062014805334) * 2 powi (6 - 52))"
    by (intro dbl_eqI) simp_all
  then show ?thesis by simp
qed

lemma edge_dbl_2: "dbl (- (37830236869912165 / 2251799813685248)) = Num (- (4728779608739021 / 281474976710656))"
proof -
  have "roundHalfEven ((- (37830236869912165 / 2251799813685248)) / 2 powi (4 - 52)) = (- 4728779608739021)"
    by (rule roundHalfEven_near) simp
  then have "dbl (- (37830236869912165 / 2251799813685248)) = Num (of_int (- 4728779608739021) * 2 powi (4 - 52))"
    by (intro dbl_eqI) simp_all
  then show ?thesis by simp
qed

lemma edge_dbl_3: "dbl (- (18764998447377067 / 2251799813685248)) = Num (- (4691249611844267 / 562949953421312))"
proof -
  have "roundHalfEven ((- (18764998447377067 / 2251799813685248)) / 2 powi (3 - 52)) = (- 4691249611844267)"
    by (rule roundHalfEven_near) simp
  then have "dbl (- (18764998447377067 / 2251799813685248)) = Num (of_int (- 4691249611844267) * 2 powi (3 - 52))"
    by (intro dbl_eqI) simp_all
  then show ?thesis by simp
qed

lemma edge_dbl_4: "dbl (- (25220157913274777 / 4503599627370496)) = Num (- (3152519739159347 / 562949953421312))"
proof -
  have "roundHalfEven ((- (25220157913274777 / 4503599627370496)) / 2 powi (2 - 52)) = (- 6305039478318694)"
    by (rule roundHalfEven_near) simp
  then have "dbl (- (25220157913274777 / 4503599627370496)) = Num (of_int (- 6305039478318694) * 2 powi (2 - 52))"
    by (intro dbl_eqI) simp_all
  then show ?thesis by simp
qed

lemma edge_dbl_5: "dbl (- (1 / 281474976710656)) = Num (- (1 / 281474976710656))"
proof -
  have "roundHalfEven ((- (1 / 281474976710656)) / 2 powi ((- 48) - 52)) = (- 4503599627370496)"
    by (rule roundHalfEven_near) simp
  then have "dbl (- (1 / 281474976710656)) = Num (of_int (- 4503599627370496) * 2 powi ((- 48) - 52))"
    by (intro dbl_eqI) simp_all
  then show ?thesis by simp
qed

lemma edge_dbl_6: "dbl (6305039478318695 / 4503599627370496) = Num (6305039478318695 / 4503599627370496)"
proof -
  have "roundHalfEven ((6305039478318695 / 4503599627370496) / 2 powi (0 - 52)) = 6305039478318695"
    by (rule roundHalfEven_near) simp
  then have "dbl (6305039478318695 / 4503599627370496) = Num (of_int 6305039478318695 * 2 powi (0 - 52))"
    by (intro dbl_eqI) simp_all
  then show ?thesis by simp
qed

lemma edge_dbl_7: "dbl (3752999689475413 / 2251799813685248) = Num (3752999689475413 / 2251799813685248)"
proof -
  have "roundHalfEven ((3752999689475413 / 2251799813685248) / 2 powi (0 - 52)) = 7505999378950826"
    by (rule roundHalfEven_near) simp
  then have "dbl (3752999689475413 / 2251799813685248) = Num (of_int 7505999378950826 * 2 powi (0 - 52))"
    by (intro dbl_eqI) simp_all
  then show ?thesis by simp
qed

lemma edge_dbl_8: "dbl (5404319552844595 / 2251799813685248) = Num (5404319552844595 / 2251799813685248)"
proof -
  have "roundHalfEven ((5404319552844595 / 2251799813685248) / 2 powi (1 - 52)) = 5404319552844595"
    by (rule roundHalfEven_near) simp
  then have "dbl (5404319552844595 / 2251799813685248) = Num (of_int 5404319552844595 * 2 powi (1 - 52))"
    by (intro dbl_eqI) simp_all
  then show ?thesis by simp
qed

lemma edge_dbl_9: "dbl (4691249611844267 / 562949953421312) = Num (4691249611844267 / 562949953421312)"
proof -
  have "roundHalfEven ((4691249611844267 / 562949953421312) / 2 powi (3 - 52)) = 4691249611844267"
    by (rule roundHalfEven_near) simp
  then have "dbl (4691249611844267 / 562949953421312) = Num (of_int 4691249611844267 * 2 powi (3 - 52))"
    by (intro dbl_eqI) simp_all
  then show ?thesis by simp
qed

lemma edge_dbl_10: "dbl (1182194902184755 / 70368744177664) = Num (1182194902184755 / 70368744177664)"
proof -
  have "roundHalfEven ((1182194902184755 / 70368744177664) / 2 powi (4 - 52)) = 4728779608739020"
    by (rule roundHalfEven_near) simp
  then have "dbl (1182194902184755 / 70368744177664) = Num (of_int 4728779608739020 * 2 powi (4 - 52))"
    by (intro dbl_eqI) simp_all
  then show ?thesis by simp
qed

lemma edge_dbl_11: "dbl (9457559217478041 / 562949953421312) = Num (1182194902184755 / 70368744177664)"
proof -
  have "roundHalfEven ((9457559217478041 / 562949953421312) / 2 powi (4 - 52)) = 4728779608739020"
    using roundHalfEven_tie[of "(9457559217478041 / 562949953421312) / 2 powi (4 - 52)" "4728779608739020"] by simp
  then have "dbl (9457559217478041 / 562949953421312) = Num (of_int 4728779608739020 * 2 powi (4 - 52))"
    by (intro dbl_eqI) simp_all
  then show ?thesis by simp
qed

lemma edge_dbl_12: "dbl (37830236869912165 / 2251799813685248) = Num (4728779608739021 / 281474976710656)"
proof -
  have "roundHalfEven ((37830236869912165 / 2251799813685248) / 2 powi (4 - 52)) = 4728779608739021"
    by (rule roundHalfEven_near) simp
  then have "dbl (37830236869912165 / 2251799813685248) = Num (of_int 4728779608739021 * 2 powi (4 - 52))"
    by (intro dbl_eqI) simp_all
  then show ?thesis by simp
qed

lemma edge_dbl_13: "dbl (4728779608739021 / 281474976710656) = Num (4728779608739021 / 281474976710656)"
proof -
  have "roundHalfEven ((4728779608739021 / 281474976710656) / 2 powi (4 - 52)) = 4728779608739021"
    by (rule roundHalfEven_near) simp
  then have "dbl (4728779608739021 / 281474976710656) = Num (of_int 4728779608739021 * 2 powi (4 - 52))"
    by (intro dbl_eqI) simp_all
  then show ?thesis by simp
qed

lemma edge_dbl_14: "dbl (23456248059221335 / 281474976710656) = Num (2932031007402667 / 35184372088832)"
proof -
  have "roundHalfEven ((23456248059221335 / 281474976710656) / 2 powi (6 - 52)) = 5864062014805334"
    by (rule roundHalfEven_near) simp
  then have "dbl (23456248059221335 / 281474976710656) = Num (of_int 5864062014805334 * 2 powi (6 - 52))"
    by (intro dbl_eqI) simp_all
  then show ?thesis by simp
qed

lemma edge_dbl_15: "dbl (2932031007402667 / 35184372088832) = Num (2932031007402667 / 35184372088832)"
proof -
  have "roundHalfEven ((2932031007402667 / 35184372088832) / 2 powi (6 - 52)) = 5864062014805334"
    by (rule roundHalfEven_near) simp
  then have "dbl (2932031007402667 / 35184372088832) = Num (of_int 5864062014805334 * 2 powi (6 - 52))"
    by (intro dbl_eqI) simp_all
  then show ?thesis by simp
qed

lemmas edge_dbl = edge_dbl_int edge_dbl_1 edge_dbl_2 edge_dbl_3 edge_dbl_4 edge_dbl_5 edge_dbl_6 edge_dbl_7 edge_dbl_8 edge_dbl_9 edge_dbl_10 edge_dbl_11 edge_dbl_12 edge_dbl_13 edge_dbl_14 edge_dbl_15


section \<open>Degenerate triangles\<close>















section \<open>Point location: claims\<close>

text \<open>
  C4. \<open>findTriangleAtPosition\<close> returns the lowest index \<open>i\<close> whose triangle contains
  the point under the 2D containment test, with the interpolated elevation of the point
  in that triangle (rounded by \<open>Math.round\<close>); when no triangle contains the point it
  returns the sentinel: index -1, elevation 0.
\<close>

theorem findTriangleAtPosition_first_match:
  "(i < length (triangles walkmesh) \<and> containsPoint (triangles walkmesh ! i) x y
      \<and> (\<forall>j<i. \<not> containsPoint (triangles walkmesh ! j) x y)
     \<longrightarrow> findTriangleAtPosition walkmesh x y
         = \<lparr>triangleId = int i,
            tz = Math_round (calculateZAtPoint x y (triangles walkmesh ! i))\<rparr>)
   \<and> ((\<forall>j<length (triangles walkmesh). \<not> containsPoint (triangles walkmesh ! j) x y)
     \<longrightarrow> findTriangleAtPosition walkmesh x y = \<lparr>triangleId = - 1, tz = Num 0\<rparr>)"
proof (intro conjI impI)
  assume "i < length (triangles walkmesh) \<and> containsPoint (triangles walkmesh ! i) x y
      \<and> (\<forall>j<i. \<not> containsPoint (triangles walkmesh ! j) x y)"
  then show "findTriangleAtPosition walkmesh x y
         = \<lparr>triangleId = int i,
            tz = Math_round (calculateZAtPoint x y (triangles walkmesh ! i))\<rparr>"
    unfolding findTriangleAtPosition_def
    by (intro findLoop_hit[where d = i]) auto
next
  assume "\<forall>j<length (triangles walkmesh). \<not> containsPoint (triangles walkmesh ! j) x y"
  then show "findTriangleAtPosition walkmesh x y = \<lparr>triangleId = - 1, tz = Num 0\<rparr>"
    unfolding findTriangleAtPosition_def
    by (intro findLoop_miss[where d = "length (triangles walkmesh)"]) auto
qed

theorem findTriangleAtPosition_first_match_witness:
  "containsPoint (triangles example_mesh ! 0) (Num 1) (Num 1)
   \<and> containsPoint (triangles example_mesh ! 1) (Num 1) (Num 1)
   \<and> findTriangleAtPosition example_mesh (Num 1) (Num 1) = \<lparr>triangleId = 0, tz = Num 3\<rparr>
   \<and> findTriangleAtPosition example_mesh (Num 12) (Num 0) = \<lparr>triangleId = 1, tz = Num 7\<rparr>
   \<and> findTriangleAtPosition example_mesh (Num 100) (Num 100) = \<lparr>triangleId = - 1, tz = Num 0\<rparr>"
proof -
  have len: "length (triangles example_mesh) = 2" by (simp add: example_mesh_def)
  have none: "\<forall>j<length (triangles example_mesh).
      \<not> containsPoint (triangles example_mesh ! j) (Num 100) (Num 100)"
    using example_mesh_contains(5,6) by (auto simp: len less_Suc_eq numeral_2_eq_2)
  have first: "\<forall>j<1. \<not> containsPoint (triangles example_mesh ! j) (Num 12) (Num 0)"
    using example_mesh_contains(3) by simp
  show ?thesis
    using findTriangleAtPosition_first_match [of 0 example_mesh "Num 1" "Num 1"]
      findTriangleAtPosition_first_match [of 1 example_mesh "Num 12" "Num 0"]
      findTriangleAtPosition_first_match [of 0 example_mesh "Num 100" "Num 100"]
      example_mesh_contains none first example_mesh_rounded
    by (simp add: len)
qed

text \<open>
  C5. The claim: for every triangle of nonzero signed area, of either winding,
  \<open>pointInTriangle\<close> is true exactly for the points of the closed triangle. In double
  arithmetic this fails at query points with fractional coordinates: the test rejects
  the point (2.4, 1.4000000000000001) of the closed triangle (0,0), (3,0), (0,7) and
  accepts the point (8.333333333333334, 1.6666666666666665) outside the triangle
  (0,0), (10,0), (0,10).

  What holds: when the coordinates of the vertices and of the query point are integers
  of magnitude at most \<open>2 ^ 24\<close> (the decoder gives 16-bit vertices and the viewer
  rounds the query point), every intermediate value is an integer that a double holds
  exactly, and for a triangle of nonzero signed area, of either sign, the test is true
  exactly for the points of the closed triangle (the convex combinations of the
  vertices); in particular every such point on an edge is inside.
\<close>

theorem pointInTriangle_integer_closed_triangle:
  fixes px py v0x v0y v1x v1y v2x v2y :: int
  assumes "\<bar>px\<bar> \<le> 2 ^ 24" "\<bar>py\<bar> \<le> 2 ^ 24" "\<bar>v0x\<bar> \<le> 2 ^ 24" "\<bar>v0y\<bar> \<le> 2 ^ 24"
    "\<bar>v1x\<bar> \<le> 2 ^ 24" "\<bar>v1y\<bar> \<le> 2 ^ 24" "\<bar>v2x\<bar> \<le> 2 ^ 24" "\<bar>v2y\<bar> \<le> 2 ^ 24"
    and "twice_signed_area (of_int v0x) (of_int v0y) (of_int v1x) (of_int v1y)
           (of_int v2x) (of_int v2y) \<noteq> 0"
  shows "pointInTriangle (Num (of_int px)) (Num (of_int py)) (Num (of_int v0x)) (Num (of_int v0y))
           (Num (of_int v1x)) (Num (of_int v1y)) (Num (of_int v2x)) (Num (of_int v2y))
         = in_closed_triangle (of_int px) (of_int py) (of_int v0x) (of_int v0y)
             (of_int v1x) (of_int v1y) (of_int v2x) (of_int v2y)
     \<and> (\<forall>t::rat. 0 \<le> t \<and> t \<le> 1
           \<and> ((of_int px = of_int v0x + t * (of_int v1x - of_int v0x)
                 \<and> of_int py = of_int v0y + t * (of_int v1y - of_int v0y))
              \<or> (of_int px = of_int v1x + t * (of_int v2x - of_int v1x)
                 \<and> of_int py = of_int v1y + t * (of_int v2y - of_int v1y))
              \<or> (of_int px = of_int v2x + t * (of_int v0x - of_int v2x)
                 \<and> of_int py = of_int v2y + t * (of_int v0y - of_int v2y)))
          \<longrightarrow> pointInTriangle (Num (of_int px)) (Num (of_int py)) (Num (of_int v0x))
                (Num (of_int v0y)) (Num (of_int v1x)) (Num (of_int v1y)) (Num (of_int v2x))
                (Num (of_int v2y)))"
proof -
  note ex = pointInTriangle_int[OF assms(1-8)]
  have iff: "pointInTriangle_exact (of_int px) (of_int py) (of_int v0x) (of_int v0y)
             (of_int v1x) (of_int v1y) (of_int v2x) (of_int v2y)
         = in_closed_triangle (of_int px) (of_int py) (of_int v0x) (of_int v0y)
             (of_int v1x) (of_int v1y) (of_int v2x) (of_int v2y)"
  proof
    assume "pointInTriangle_exact (of_int px) (of_int py) (of_int v0x) (of_int v0y)
             (of_int v1x) (of_int v1y) (of_int v2x) (of_int v2y)"
    with assms(9) show "in_closed_triangle (of_int px) (of_int py) (of_int v0x) (of_int v0y)
             (of_int v1x) (of_int v1y) (of_int v2x) (of_int v2y)"
      by (rule pointInTriangle_exact_sound)
  next
    assume "in_closed_triangle (of_int px) (of_int py) (of_int v0x) (of_int v0y)
             (of_int v1x) (of_int v1y) (of_int v2x) (of_int v2y)"
    then obtain a b c :: rat where "0 \<le> a" "0 \<le> b" "0 \<le> c" "a + b + c = 1"
      "of_int px = a * of_int v0x + b * of_int v1x + c * of_int v2x"
      "of_int py = a * of_int v0y + b * of_int v1y + c * of_int v2y"
      unfolding in_closed_triangle_def by blast
    then show "pointInTriangle_exact (of_int px) (of_int py) (of_int v0x) (of_int v0y)
             (of_int v1x) (of_int v1y) (of_int v2x) (of_int v2y)"
      by (rule pointInTriangle_exact_complete)
  qed
  have edge: "pointInTriangle_exact (of_int px) (of_int py) (of_int v0x) (of_int v0y)
             (of_int v1x) (of_int v1y) (of_int v2x) (of_int v2y)"
    if t: "0 \<le> t" "t \<le> 1"
      and e: "(of_int px = of_int v0x + t * (of_int v1x - of_int v0x)
                 \<and> of_int py = of_int v0y + t * (of_int v1y - of_int v0y))
              \<or> (of_int px = of_int v1x + t * (of_int v2x - of_int v1x)
                 \<and> of_int py = of_int v1y + t * (of_int v2y - of_int v1y))
              \<or> (of_int px = of_int v2x + t * (of_int v0x - of_int v2x)
                 \<and> of_int py = of_int v2y + t * (of_int v0y - of_int v2y))" for t :: rat
  proof -
    from t have t': "0 \<le> t" "0 \<le> 1 - t" by simp_all
    from e consider
      (a) "of_int px = of_int v0x + t * (of_int v1x - of_int v0x)"
          "of_int py = of_int v0y + t * (of_int v1y - of_int v0y)"
      | (b) "of_int px = of_int v1x + t * (of_int v2x - of_int v1x)"
          "of_int py = of_int v1y + t * (of_int v2y - of_int v1y)"
      | (c) "of_int px = of_int v2x + t * (of_int v0x - of_int v2x)"
          "of_int py = of_int v2y + t * (of_int v0y - of_int v2y)"
      by blast
    then show ?thesis
    proof cases
      case a
      show ?thesis
        by (rule pointInTriangle_exact_complete[of "1 - t" t 0])
          (use t' a in \<open>simp_all add: algebra_simps\<close>)
    next
      case b
      show ?thesis
        by (rule pointInTriangle_exact_complete[of 0 "1 - t" t])
          (use t' b in \<open>simp_all add: algebra_simps\<close>)
    next
      case c
      show ?thesis
        by (rule pointInTriangle_exact_complete[of t 0 "1 - t"])
          (use t' c in \<open>simp_all add: algebra_simps\<close>)
    qed
  qed
  show ?thesis unfolding ex using iff edge by blast
qed

theorem pointInTriangle_integer_closed_triangle_witness:
  "twice_signed_area 0 0 10 0 0 10 = 100
   \<and> pointInTriangle (Num 5) (Num 5) (Num 0) (Num 0) (Num 10) (Num 0) (Num 0) (Num 10)
   \<and> in_closed_triangle 5 5 0 0 10 0 0 10
   \<and> \<not> pointInTriangle (Num 6) (Num 5) (Num 0) (Num 0) (Num 10) (Num 0) (Num 0) (Num 10)
   \<and> \<not> in_closed_triangle 6 5 0 0 10 0 0 10
   \<and> twice_signed_area 0 0 0 10 10 0 = - 100
   \<and> pointInTriangle (Num 5) (Num 5) (Num 0) (Num 0) (Num 0) (Num 10) (Num 10) (Num 0)
   \<and> in_closed_triangle 5 5 0 0 0 10 10 0
   \<and> \<not> pointInTriangle (Num 6) (Num 5) (Num 0) (Num 0) (Num 0) (Num 10) (Num 10) (Num 0)
   \<and> \<not> in_closed_triangle 6 5 0 0 0 10 10 0"
proof -
  have ccw: "twice_signed_area 0 0 10 0 0 10 = 100" and cw: "twice_signed_area 0 0 0 10 10 0 = - 100"
    by (simp_all add: twice_signed_area_def)
  have p: "pointInTriangle_exact 5 5 0 0 10 0 0 10" "\<not> pointInTriangle_exact 6 5 0 0 10 0 0 10"
    "pointInTriangle_exact 5 5 0 0 0 10 10 0" "\<not> pointInTriangle_exact 6 5 0 0 0 10 10 0"
    by (simp_all add: pointInTriangle_exact_def)
  show ?thesis
    using pointInTriangle_integer_closed_triangle [of 5 5 0 0 10 0 0 10]
      pointInTriangle_integer_closed_triangle [of 6 5 0 0 10 0 0 10]
      pointInTriangle_integer_closed_triangle [of 5 5 0 0 0 10 10 0]
      pointInTriangle_integer_closed_triangle [of 6 5 0 0 0 10 10 0]
      pointInTriangle_int [of 5 5 0 0 10 0 0 10] pointInTriangle_int [of 6 5 0 0 10 0 0 10]
      pointInTriangle_int [of 5 5 0 0 0 10 10 0] pointInTriangle_int [of 6 5 0 0 0 10 10 0]
      p
    by (simp add: ccw cw)
qed

theorem pointInTriangle_double_counterexample:
  "twice_signed_area 0 0 3 0 0 7 \<noteq> 0
   \<and> dbl (5404319552844595 / 2251799813685248) = Num (5404319552844595 / 2251799813685248)
   \<and> dbl (6305039478318695 / 4503599627370496) = Num (6305039478318695 / 4503599627370496)
   \<and> in_closed_triangle (5404319552844595 / 2251799813685248) (6305039478318695 / 4503599627370496) 0 0 3 0 0 7
   \<and> \<not> pointInTriangle (Num (5404319552844595 / 2251799813685248)) (Num (6305039478318695 / 4503599627370496))
         (Num 0) (Num 0) (Num 3) (Num 0) (Num 0) (Num 7)
   \<and> twice_signed_area 0 0 10 0 0 10 \<noteq> 0
   \<and> dbl (4691249611844267 / 562949953421312) = Num (4691249611844267 / 562949953421312)
   \<and> dbl (3752999689475413 / 2251799813685248) = Num (3752999689475413 / 2251799813685248)
   \<and> \<not> in_closed_triangle (4691249611844267 / 562949953421312) (3752999689475413 / 2251799813685248) 0 0 10 0 0 10
   \<and> pointInTriangle (Num (4691249611844267 / 562949953421312)) (Num (3752999689475413 / 2251799813685248))
         (Num 0) (Num 0) (Num 10) (Num 0) (Num 0) (Num 10)"
proof -
  have a: "twice_signed_area 0 0 3 0 0 7 \<noteq> 0" "twice_signed_area 0 0 10 0 0 10 \<noteq> 0"
    by (simp_all add: twice_signed_area_def)
  have inside: "in_closed_triangle (5404319552844595 / 2251799813685248) (6305039478318695 / 4503599627370496) 0 0 3 0 0 7"
    unfolding in_closed_triangle_def
    by (intro exI[of _ "1 - (5404319552844595 / 2251799813685248) / 3 - (6305039478318695 / 4503599627370496) / 7"] exI[of _ "(5404319552844595 / 2251799813685248) / 3"] exI[of _ "(6305039478318695 / 4503599627370496) / 7"]) simp
  have outside: "\<not> in_closed_triangle (4691249611844267 / 562949953421312) (3752999689475413 / 2251799813685248) 0 0 10 0 0 10"
  proof
    assume "in_closed_triangle (4691249611844267 / 562949953421312) (3752999689475413 / 2251799813685248) 0 0 10 0 0 10"
    then obtain a b c :: rat where abc: "0 \<le> a" "0 \<le> b" "0 \<le> c" "a + b + c = 1"
      "(4691249611844267 / 562949953421312) = a * 0 + b * 10 + c * 0" "(3752999689475413 / 2251799813685248) = a * 0 + b * 0 + c * 10"
      unfolding in_closed_triangle_def by blast
    then have "(4691249611844267 / 562949953421312) + (3752999689475413 / 2251799813685248) = 10 * (b + c)" by simp
    moreover have "b + c \<le> 1" using abc by simp
    ultimately show False by simp
  qed
  have no: "\<not> pointInTriangle (Num (5404319552844595 / 2251799813685248)) (Num (6305039478318695 / 4503599627370496))
         (Num 0) (Num 0) (Num 3) (Num 0) (Num 0) (Num 7)"
    by (simp add: pointInTriangle_def d_sub_def dbl_zero edge_dbl)
  have yes: "pointInTriangle (Num (4691249611844267 / 562949953421312)) (Num (3752999689475413 / 2251799813685248))
         (Num 0) (Num 0) (Num 10) (Num 0) (Num 0) (Num 10)"
    by (simp add: pointInTriangle_def d_sub_def dbl_zero edge_dbl)
  show ?thesis using a inside outside no yes by (simp add: edge_dbl)
qed




end
